theory Spec2Isabelle
  imports Complex_Main "HOL-Library.Word" "HOL-Library.Log_Nat"
begin

section \<open>JMuxmer (src/jmuxer.js): frame assembly, duration distribution, buffer eviction\<close>

text \<open>
  Conventions of the embedding.
  \<^item> A JavaScript number is an IEEE-754 double. A finite double is a rational number,
    so numbers are \<open>rat\<close>, and \<open>int\<close> where the value is always integral (chunk
    duration after \<open>parseInt\<close>, frame durations, \<open>tt\<close>, \<open>kfCounter\<close>). Every
    arithmetic result is rounded as the machine rounds it: \<open>dbl\<close> is rounding to the
    nearest double, ties to the even significand, and \<open>idbl\<close> is \<open>dbl\<close> on integers.
    The exponent is not bounded: no value that the modelled code computes is large
    enough to overflow or small enough to be subnormal.
  \<^item> The conversion \<open>x | 0\<close> (ToInt32) is written out: truncation towards zero
    followed by wrap-around into the signed 32-bit range.
  \<^item> Times in seconds (\<open>node.currentTime\<close>, the entries of \<open>kfPosition\<close>) are \<open>rat\<close>;
    \<open>getSafeClearOffsetOfBuffer\<close> only compares and selects such values.
  \<^item> A property that may be \<open>undefined\<close> or \<open>null\<close> is an \<open>option\<close>.
  \<^item> Calls into collaborators (error log, remux controller, buffer controllers, media
    source) are recorded as a list of actions in program order. The trace line that
    getVideoFrames writes with \<open>debug.log\<close> is not recorded.
\<close>

subsection \<open>Data\<close>

type_synonym byte = "8 word"

text \<open>
  Modelled from the spec: the NALU class (util/nalu.js) is not in the source tree. The
  spec's data model gives a NAL unit a type, a payload and the flags \<open>isVCL\<close>,
  \<open>isKeyframe\<close> and \<open>isFirstMacroblockOfFrame\<close>; jmuxer.js reads them as \<open>type()\<close>,
  \<open>isvcl\<close>, \<open>isKeyframe()\<close> and \<open>isfmb\<close>.
\<close>

datatype nal_type = NDR | IDR | SEI | SPS | PPS | AUD | OtherNal

record NALU =
  ntype :: nal_type
  payload :: "byte list"
  isvcl :: bool
  isfmb :: bool
  isKeyframe :: bool

text \<open>
  The parsers and the NALU constructor are imported by jmuxer.js and not part of it;
  they are parameters of the model.
\<close>

record parsers =
  extractNALu :: "byte list \<Rightarrow> byte list list"
  extractAAC :: "byte list \<Rightarrow> byte list list"
  newNALU :: "byte list \<Rightarrow> NALU"
  parseHeader :: "NALU \<Rightarrow> NALU"

text \<open>A video frame as pushed by the assembly loop, and after a duration is assigned.\<close>

record pframe =
  units :: "NALU list"
  keyFrame :: bool

record frame = pframe +
  duration :: int

text \<open>An audio frame \<open>{units, duration}\<close>; its \<open>units\<close> is one AAC access unit.\<close>

record aframe =
  aunits :: "byte list"
  aduration :: int

datatype mode = Both | Audio | Video

datatype track = VideoTrack | AudioTrack

text \<open>The options that the modelled methods read; \<open>fps\<close> is taken to be integral.\<close>

record options =
  mode :: mode
  clearBuffer :: bool
  fps :: int

text \<open>
  The fields of a JMuxmer instance that the modelled methods read or write.
  \<open>remuxController\<close> is \<open>False\<close> once \<open>destroy\<close> has set it to null;
  \<open>bufferControllers\<close> is \<open>None\<close> before \<open>createBuffer\<close> and after \<open>destroy\<close>;
  \<open>mediaSource\<close> holds the list \<open>mediaSource.sourceBuffers\<close>, \<open>None\<close> when null.
\<close>

record jmuxer =
  opts :: options
  frameDuration :: int
  kfPosition :: "rat list"
  kfCounter :: int
  remuxController :: bool
  bufferControllers :: "track set option"
  sourceBuffers :: "track set"
  mediaSource :: "track list option"
  currentTime :: rat

text \<open>
  The argument of \<open>feed\<close>; \<open>cduration\<close> is \<open>data.duration\<close> as \<open>parseInt\<close> reads it, an
  integral double (\<open>None\<close> when the property is absent, falsy or not a number).
\<close>

record chunk =
  video :: "byte list option"
  audio :: "byte list option"
  cduration :: "int option"

record buffer_error =
  ename :: string
  etype :: track

datatype js_error = TypeError | NotFoundError

datatype action =
    LogError string
  | Remux "frame list" "aframe list"
  | InitCleanup track rat
  | RemoveSourceBuffer track
  | EndOfStream

subsection \<open>Number conversions\<close>

text \<open>Rounding to the nearest integer, a tie going to the even one.\<close>

definition round_even :: "rat \<Rightarrow> int" where
  "round_even y =
     (let n = \<lfloor>y\<rfloor>; r = y - of_int n
      in if r < 1 / 2 then n else if 1 / 2 < r then n + 1 else if even n then n else n + 1)"

text \<open>The binary exponent of a positive number: \<open>2 ^ expo x \<le> x < 2 ^ (expo x + 1)\<close>.\<close>

definition expo :: "rat \<Rightarrow> int" where
  "expo x =
     (let (a, b) = quotient_of x; d = bitlen a - bitlen b
      in if power_int 2 d \<le> x then d else d - 1)"

text \<open>
  The double nearest to \<open>x\<close>: the significand, scaled to 53 bits, is rounded to the
  nearest integer, ties to even.
\<close>

definition dbl :: "rat \<Rightarrow> rat" where
  "dbl x =
     (if x = 0 then 0
      else (let u = power_int 2 (expo \<bar>x\<bar> - 52)
            in sgn x * of_int (round_even (\<bar>x\<bar> / u)) * u))"

text \<open>The double nearest to an integer; it is an integer again.\<close>

definition idbl :: "int \<Rightarrow> int" where
  "idbl n = \<lfloor>dbl (of_int n)\<rfloor>"

definition trunc :: "rat \<Rightarrow> int" where
  "trunc y = (if 0 \<le> y then \<lfloor>y\<rfloor> else \<lceil>y\<rceil>)"

definition toInt32 :: "int \<Rightarrow> int" where
  "toInt32 x = (x + 2 ^ 31) mod 2 ^ 32 - 2 ^ 31"

text \<open>
  \<open>a / b | 0\<close> for integral \<open>a\<close> and a length \<open>b\<close>: the quotient is a double, \<open>| 0\<close>
  truncates and wraps it. \<open>a / 0\<close> is infinite or NaN, and \<open>| 0\<close> maps both to 0.
\<close>

definition div_int32 :: "int \<Rightarrow> int \<Rightarrow> int" where
  "div_int32 a b =
     (if b = 0 then 0 else toInt32 (trunc (dbl (of_int a / of_int b))))"

subsection \<open>The constructor\<close>

definition new_jmuxer :: "options \<Rightarrow> jmuxer" where
  "new_jmuxer options =
     (let options' = (if fps options = 0 then options\<lparr>fps := 30\<rparr> else options)
      in \<lparr>opts = options',
          frameDuration = div_int32 1000 (fps options'),
          kfPosition = [],
          kfCounter = 0,
          remuxController = True,
          bufferControllers = None,
          sourceBuffers = {},
          mediaSource = Some [],
          currentTime = 0\<rparr>)"

subsection \<open>getVideoFrames: the assembly loop (lines 123-140)\<close>

record assembler =
  a_units :: "NALU list"
  a_frames :: "pframe list"
  a_keyFrame :: bool
  a_vcl :: bool

definition assembler_init :: assembler where
  "assembler_init = \<lparr>a_units = [], a_frames = [], a_keyFrame = False, a_vcl = False\<rparr>"

definition frame_boundary :: "assembler \<Rightarrow> NALU \<Rightarrow> bool" where
  "frame_boundary a u \<longleftrightarrow> a_units a \<noteq> [] \<and> a_vcl a \<and> (isfmb u \<or> \<not> isvcl u)"

definition close_frame :: "assembler \<Rightarrow> assembler" where
  "close_frame a =
     a\<lparr>a_frames := a_frames a @ [\<lparr>units = a_units a, keyFrame = a_keyFrame a\<rparr>],
       a_units := [], a_keyFrame := False, a_vcl := False\<rparr>"

definition push_unit :: "assembler \<Rightarrow> NALU \<Rightarrow> assembler" where
  "push_unit a u =
     a\<lparr>a_units := a_units a @ [u],
       a_keyFrame := (a_keyFrame a \<or> isKeyframe u),
       a_vcl := (a_vcl a \<or> isvcl u)\<rparr>"

definition loop_body :: "assembler \<Rightarrow> NALU \<Rightarrow> assembler" where
  "loop_body a u = push_unit (if frame_boundary a u then close_frame a else a) u"

definition scan_units :: "NALU list \<Rightarrow> assembler" where
  "scan_units us = foldl loop_body assembler_init us"

text \<open>The unit object of one iteration: \<open>new NALU(nalu)\<close>, header parsed for IDR and NDR.\<close>

definition make_unit :: "parsers \<Rightarrow> byte list \<Rightarrow> NALU" where
  "make_unit P nalu =
     (let u = newNALU P nalu
      in if ntype u = IDR \<or> ntype u = NDR then parseHeader P u else u)"

subsection \<open>getVideoFrames: the end of the chunk (lines 141-151)\<close>

definition flush_units :: "assembler \<Rightarrow> pframe list" where
  "flush_units a =
     (if a_units a \<noteq> [] then
        (if a_vcl a \<or> a_frames a = [] then
           a_frames a @ [\<lparr>units = a_units a, keyFrame = a_keyFrame a\<rparr>]
         else
           (let l = length (a_frames a) - 1
            in (a_frames a)[l := (a_frames a ! l)\<lparr>units := units (a_frames a ! l) @ a_units a\<rparr>]))
      else a_frames a)"

definition assemble :: "NALU list \<Rightarrow> pframe list" where
  "assemble us = flush_units (scan_units us)"

subsection \<open>Durations (lines 152-165 and 178-186)\<close>

definition frame_fd :: "jmuxer \<Rightarrow> int \<Rightarrow> nat \<Rightarrow> int" where
  "frame_fd s d n = (if d \<noteq> 0 then div_int32 d (int n) else frameDuration s)"

definition frame_tt :: "jmuxer \<Rightarrow> int \<Rightarrow> nat \<Rightarrow> int" where
  "frame_tt s d n = (if d \<noteq> 0 then idbl (d - idbl (frame_fd s d n * int n)) else 0)"

text \<open>
  The callback of \<open>frames.map\<close> in getVideoFrames, run over the frames in order; \<open>tt\<close>
  is the remainder still to hand out. \<open>count_frame\<close> is the callback's effect on the
  instance: \<open>kfCounter\<close> incremented, then the ledger entry pushed for a keyframe.
\<close>

definition count_frame :: "int \<Rightarrow> jmuxer \<Rightarrow> pframe \<Rightarrow> jmuxer" where
  "count_frame fd s f =
     (let s1 = s\<lparr>kfCounter := idbl (kfCounter s + 1)\<rparr>
      in if keyFrame f \<and> clearBuffer (opts s1)
         then s1\<lparr>kfPosition :=
                  kfPosition s1 @ [dbl (of_int (idbl (kfCounter s1 * fd)) / 1000)]\<rparr>
         else s1)"

fun stamp_video :: "int \<Rightarrow> int \<Rightarrow> jmuxer \<Rightarrow> pframe list \<Rightarrow> frame list \<times> jmuxer" where
  "stamp_video fd tt s [] = ([], s)"
| "stamp_video fd tt s (f # fs) =
     (let d = (if tt > 0 then idbl (fd + 1) else fd);
          tt' = (if tt > 0 then idbl (tt - 1) else tt);
          (rest, s') = stamp_video fd tt' (count_frame fd s f) fs
      in (\<lparr>units = units f, keyFrame = keyFrame f, duration = d\<rparr> # rest, s'))"

definition getVideoFrames :: "parsers \<Rightarrow> jmuxer \<Rightarrow> byte list list \<Rightarrow> int \<Rightarrow> frame list \<times> jmuxer" where
  "getVideoFrames P s nalus d =
     (let frames = assemble (map (make_unit P) nalus);
          fd = frame_fd s d (length frames);
          tt = frame_tt s d (length frames)
      in stamp_video fd tt s frames)"

fun stamp_audio :: "int \<Rightarrow> int \<Rightarrow> byte list list \<Rightarrow> aframe list" where
  "stamp_audio fd tt [] = []"
| "stamp_audio fd tt (u # us) =
     (let d = (if tt > 0 then idbl (fd + 1) else fd);
          tt' = (if tt > 0 then idbl (tt - 1) else tt)
      in \<lparr>aunits = u, aduration = d\<rparr> # stamp_audio fd tt' us)"

definition getAudioFrames :: "jmuxer \<Rightarrow> byte list list \<Rightarrow> int \<Rightarrow> aframe list" where
  "getAudioFrames s aacFrames d =
     (let fd = frame_fd s d (length aacFrames);
          tt = frame_tt s d (length aacFrames)
      in stamp_audio fd tt aacFrames)"

subsection \<open>feed (lines 83-113)\<close>

definition input_error_message :: string where
  "input_error_message =
     ''Input object must have video and/or audio property. Make sure it is a valid typed array''"

definition feed :: "parsers \<Rightarrow> jmuxer \<Rightarrow> chunk option \<Rightarrow> jmuxer \<times> action list" where
  "feed P s data =
     (case data of
        None \<Rightarrow> (s, [])
      | Some c \<Rightarrow>
          if \<not> remuxController s then (s, [])
          else
            (let d = (case cduration c of None \<Rightarrow> 0 | Some n \<Rightarrow> n);
                 (vs, s1, r1) =
                   (case video c of
                      None \<Rightarrow> ([], s, False)
                    | Some v \<Rightarrow>
                        (let slices = extractNALu P v
                         in if length slices > 0
                            then (let (fs, s') = getVideoFrames P s slices d in (fs, s', True))
                            else ([], s, False)));
                 (as, r2) =
                   (case audio c of
                      None \<Rightarrow> ([], r1)
                    | Some a \<Rightarrow>
                        (let slices = extractAAC P a
                         in if length slices > 0
                            then (getAudioFrames s1 slices d, True)
                            else ([], r1)))
             in if \<not> r2 then (s1, [LogError input_error_message])
                else (s1, [Remux vs as])))"

subsection \<open>getSafeClearOffsetOfBuffer (lines 253-271)\<close>

text \<open>The scan for \<open>adjacentOffset\<close>; \<open>None\<close> is \<open>undefined\<close>.\<close>

fun scan_adjacent :: "rat list \<Rightarrow> rat \<Rightarrow> rat option \<Rightarrow> rat option" where
  "scan_adjacent [] offset adj = adj"
| "scan_adjacent (k # ks) offset adj =
     (if k \<ge> offset then adj else scan_adjacent ks offset (Some k))"

text \<open>The filter callback with its assignment to \<open>maxLimit\<close>: kept entries and the final \<open>maxLimit\<close>.\<close>

fun prune :: "rat \<Rightarrow> rat list \<Rightarrow> rat \<Rightarrow> rat list \<times> rat" where
  "prune adjacentOffset [] maxLimit = ([], maxLimit)"
| "prune adjacentOffset (kfDelimiter # ks) maxLimit =
     (let maxLimit' = (if kfDelimiter < adjacentOffset then kfDelimiter else maxLimit);
          (kept, m) = prune adjacentOffset ks maxLimit'
      in (if kfDelimiter \<ge> adjacentOffset then kfDelimiter # kept else kept, m))"

definition getSafeClearOffsetOfBuffer :: "jmuxer \<Rightarrow> rat \<Rightarrow> rat \<times> jmuxer" where
  "getSafeClearOffsetOfBuffer s offset =
     (let maxLimit = (if mode (opts s) = Audio \<and> offset \<noteq> 0 then offset else 0)
      in case scan_adjacent (kfPosition s) offset None of
           None \<Rightarrow> (maxLimit, s)
         | Some adjacentOffset \<Rightarrow>
             if adjacentOffset \<noteq> 0 then
               (let (kept, m) = prune adjacentOffset (kfPosition s) maxLimit
                in (m, s\<lparr>kfPosition := kept\<rparr>))
             else (maxLimit, s))"

subsection \<open>onBufferError (lines 305-321)\<close>

text \<open>
  Reading a property of \<open>null\<close> or \<open>undefined\<close> raises a TypeError. The media source is
  the browser's: \<open>removeSourceBuffer\<close> takes the buffer out of \<open>mediaSource.sourceBuffers\<close>
  and raises NotFoundError for a buffer that is not in it; \<open>endOfStream\<close> is called inside
  \<open>try\<close>, so its failure goes no further.
\<close>

definition onBufferError :: "jmuxer \<Rightarrow> buffer_error \<Rightarrow> js_error + (jmuxer \<times> action list)" where
  "onBufferError s e =
     (if ename e = ''QuotaExceeded'' then
        (case bufferControllers s of
           None \<Rightarrow> Inl TypeError
         | Some bc \<Rightarrow>
             if etype e \<in> bc then Inr (s, [InitCleanup (etype e) (currentTime s)])
             else Inl TypeError)
      else
        (case mediaSource s of
           None \<Rightarrow> Inl TypeError
         | Some sbs \<Rightarrow>
             (let removed =
                (if length sbs > 0 \<and> etype e \<in> sourceBuffers s then
                   (if etype e \<in> set sbs
                    then Inr (remove1 (etype e) sbs, [RemoveSourceBuffer (etype e)])
                    else Inl NotFoundError)
                 else Inr (sbs, []))
              in case removed of
                   Inl err \<Rightarrow> Inl err
                 | Inr (sbs', acts) \<Rightarrow>
                     Inr (s\<lparr>mediaSource := Some sbs'\<rparr>,
                          acts @ (if length sbs' = 0 then [EndOfStream] else [])))))"

subsection \<open>Sequences of calls\<close>

text \<open>
  The two writers of \<open>kfPosition\<close> are \<open>feed\<close> (through getVideoFrames) and
  \<open>getSafeClearOffsetOfBuffer\<close>; a history of the instance is a list of such calls.
\<close>

datatype operation = FeedOp "chunk option" | ClearOp rat

fun run :: "parsers \<Rightarrow> jmuxer \<Rightarrow> operation list \<Rightarrow> jmuxer" where
  "run P s [] = s"
| "run P s (FeedOp data # ops) = run P (fst (feed P s data)) ops"
| "run P s (ClearOp offset # ops) = run P (snd (getSafeClearOffsetOfBuffer s offset)) ops"

subsection \<open>The chunk-end rule as the specification words it\<close>

text \<open>
  The specification's sentence on the end of a chunk decides by the frames closed so
  far alone: the trailing units become a frame of their own when no closed frame holds
  VCL content, and are appended to the last closed frame otherwise. This definition
  follows those words, for comparison with \<open>flush_units\<close>.
\<close>

definition spec_flush_units :: "assembler \<Rightarrow> pframe list" where
  "spec_flush_units a =
     (if a_units a \<noteq> [] then
        (if \<not> (\<exists>f \<in> set (a_frames a). \<exists>x \<in> set (units f). isvcl x) then
           a_frames a @ [\<lparr>units = a_units a, keyFrame = a_keyFrame a\<rparr>]
         else
           (let l = length (a_frames a) - 1
            in (a_frames a)[l := (a_frames a ! l)\<lparr>units := units (a_frames a ! l) @ a_units a\<rparr>]))
      else a_frames a)"

subsection \<open>Concrete inputs\<close>

text \<open>
  A stand-in for the absent parsers, used to evaluate examples: every byte of the input
  is one NAL unit whose type is the low five bits of that byte (1 non-IDR slice, 5 IDR
  slice, 6 SEI, 7 SPS, 8 PPS, 9 access unit delimiter), slices are VCL, an IDR slice is a
  keyframe, and every parsed slice header starts a picture. Every byte of an audio
  buffer is one access unit.
\<close>

definition demo_type :: "byte \<Rightarrow> nal_type" where
  "demo_type b =
     (let t = unat b mod 32
      in if t = 1 then NDR else if t = 5 then IDR else if t = 6 then SEI
         else if t = 7 then SPS else if t = 8 then PPS else if t = 9 then AUD else OtherNal)"

definition demo_NALU :: "byte list \<Rightarrow> NALU" where
  "demo_NALU bs =
     (let t = (case bs of [] \<Rightarrow> OtherNal | b # _ \<Rightarrow> demo_type b)
      in \<lparr>ntype = t, payload = bs, isvcl = (t = NDR \<or> t = IDR), isfmb = False,
          isKeyframe = (t = IDR)\<rparr>)"

definition demo_parsers :: parsers where
  "demo_parsers =
     \<lparr>extractNALu = map (\<lambda>b. [b]),
      extractAAC = map (\<lambda>b. [b]),
      newNALU = demo_NALU,
      parseHeader = (\<lambda>u. u\<lparr>isfmb := True\<rparr>)\<rparr>"

definition demo_options :: "mode \<Rightarrow> options" where
  "demo_options m = \<lparr>mode = m, clearBuffer = True, fps = 30\<rparr>"

definition video_chunk :: "byte list \<Rightarrow> int option \<Rightarrow> chunk" where
  "video_chunk v d = \<lparr>video = Some v, audio = None, cduration = d\<rparr>"

definition idr_slice :: NALU where
  "idr_slice = make_unit demo_parsers [0x65]"

definition ndr_slice :: NALU where
  "ndr_slice = make_unit demo_parsers [0x41]"

definition sei_unit :: NALU where
  "sei_unit = make_unit demo_parsers [0x06]"

definition sps_unit :: NALU where
  "sps_unit = make_unit demo_parsers [0x67]"

definition pps_unit :: NALU where
  "pps_unit = make_unit demo_parsers [0x68]"

text \<open>A slice that continues a picture: a VCL unit whose first macroblock is not the first of the frame.\<close>

definition ndr_continued :: NALU where
  "ndr_continued =
     \<lparr>ntype = NDR, payload = [0x41], isvcl = True, isfmb = False, isKeyframe = False\<rparr>"

section \<open>Frame assembly\<close>

subsection \<open>Invariants of the assembly loop\<close>

lemma scan_units_snoc: "scan_units (us @ [u]) = loop_body (scan_units us) u"
  by (simp add: scan_units_def)

lemma scan_units_Nil: "scan_units [] = assembler_init"
  by (simp add: scan_units_def)

lemmas loop_defs = loop_body_def push_unit_def close_frame_def frame_boundary_def

lemma scan_vcl: "a_vcl (scan_units us) = (\<exists>x \<in> set (a_units (scan_units us)). isvcl x)"
  by (induction us rule: rev_induct)
     (auto simp: scan_units_snoc scan_units_Nil assembler_init_def loop_defs)

lemma scan_keyFrame:
  "a_keyFrame (scan_units us) = (\<exists>x \<in> set (a_units (scan_units us)). isKeyframe x)"
  by (induction us rule: rev_induct)
     (auto simp: scan_units_snoc scan_units_Nil assembler_init_def loop_defs)

lemma scan_frames_keyFrame:
  "f \<in> set (a_frames (scan_units us)) \<Longrightarrow> keyFrame f = (\<exists>x \<in> set (units f). isKeyframe x)"
proof (induction us arbitrary: f rule: rev_induct)
  case Nil
  then show ?case by (simp add: scan_units_Nil assembler_init_def)
next
  case (snoc u us)
  then show ?case
    by (auto simp: scan_units_snoc loop_defs scan_keyFrame split: if_splits)
qed

lemma scan_concat:
  "concat (map units (a_frames (scan_units us))) @ a_units (scan_units us) = us"
  by (induction us rule: rev_induct)
     (auto simp: scan_units_snoc scan_units_Nil assembler_init_def loop_defs)

lemma scan_units_nonempty: "us \<noteq> [] \<Longrightarrow> a_units (scan_units us) \<noteq> []"
  by (cases us rule: rev_cases) (auto simp: scan_units_snoc loop_defs)

lemma list_update_last: "xs \<noteq> [] \<Longrightarrow> xs[length xs - Suc 0 := y] = butlast xs @ [y]"
  by (induction xs rule: rev_induct) auto

lemma flush_cases:
  assumes "us \<noteq> []"
  shows "assemble us =
     (if (\<exists>x \<in> set (a_units (scan_units us)). isvcl x) \<or> a_frames (scan_units us) = []
      then a_frames (scan_units us) @
             [\<lparr>units = a_units (scan_units us), keyFrame = a_keyFrame (scan_units us)\<rparr>]
      else butlast (a_frames (scan_units us)) @
             [(last (a_frames (scan_units us)))
                \<lparr>units := units (last (a_frames (scan_units us))) @ a_units (scan_units us)\<rparr>])"
  using scan_units_nonempty[OF assms]
  by (auto simp: assemble_def flush_units_def scan_vcl[symmetric] list_update_last Let_def last_conv_nth)

lemma assemble_Nil: "assemble [] = []"
  by (simp add: assemble_def flush_units_def scan_units_Nil assembler_init_def)

lemma assemble_nonempty: "us \<noteq> [] \<Longrightarrow> assemble us \<noteq> []"
  by (subst flush_cases) auto

lemma assemble_concat: "concat (map units (assemble us)) = us"
proof (cases "us = []")
  case True
  then show ?thesis by (simp add: assemble_Nil)
next
  case False
  let ?a = "scan_units us"
  show ?thesis
  proof (cases "(\<exists>x \<in> set (a_units ?a). isvcl x) \<or> a_frames ?a = []")
    case True
    then show ?thesis using flush_cases[OF False] scan_concat[of us] by auto
  next
    case F2: False
    then have ne: "a_frames ?a \<noteq> []" by simp
    have "concat (map units (butlast (a_frames ?a) @ [last (a_frames ?a)])) @ a_units ?a = us"
      using ne scan_concat[of us] by simp
    then show ?thesis using flush_cases[OF False] F2 by simp
  qed
qed

subsection \<open>Evaluation of the concrete inputs\<close>

lemmas demo_defs = make_unit_def demo_parsers_def demo_NALU_def demo_type_def
  idr_slice_def ndr_slice_def sei_unit_def sps_unit_def pps_unit_def

lemmas assemble_defs = assemble_def flush_units_def scan_units_def assembler_init_def
  loop_body_def push_unit_def close_frame_def frame_boundary_def

lemma demo_units:
  "idr_slice = \<lparr>ntype = IDR, payload = [0x65], isvcl = True, isfmb = True, isKeyframe = True\<rparr>"
  "ndr_slice = \<lparr>ntype = NDR, payload = [0x41], isvcl = True, isfmb = True, isKeyframe = False\<rparr>"
  "sei_unit = \<lparr>ntype = SEI, payload = [0x06], isvcl = False, isfmb = False, isKeyframe = False\<rparr>"
  "sps_unit = \<lparr>ntype = SPS, payload = [0x67], isvcl = False, isfmb = False, isKeyframe = False\<rparr>"
  "pps_unit = \<lparr>ntype = PPS, payload = [0x68], isvcl = False, isfmb = False, isKeyframe = False\<rparr>"
  "ndr_continued = \<lparr>ntype = NDR, payload = [0x41], isvcl = True, isfmb = False, isKeyframe = False\<rparr>"
  by (simp_all add: demo_defs ndr_continued_def Let_def)

subsection \<open>Frame boundaries\<close>

text \<open>
  C5. The loop of getVideoFrames starts with no accumulated unit and no frame. For every
  unit sequence \<open>pre\<close> and next unit \<open>u\<close>: the closed frames followed by the in-progress
  units are exactly the units read so far; a boundary is declared at \<open>u\<close> exactly when
  the in-progress list holds a VCL unit and \<open>u\<close> is marked \<open>isfmb\<close> or is not a VCL
  unit. At a boundary the in-progress units become one more frame, flagged as a keyframe
  when one of them is a keyframe, and the in-progress list restarts with \<open>u\<close> alone. In
  every other case no frame is closed and \<open>u\<close> joins the in-progress list.
\<close>

theorem frame_boundary_exactly_when:
  "a_units (scan_units []) = [] \<and> a_frames (scan_units []) = []
   \<and> concat (map units (a_frames (scan_units pre))) @ a_units (scan_units pre) = pre
   \<and> a_frames (scan_units (pre @ [u])) =
       (if (\<exists>x \<in> set (a_units (scan_units pre)). isvcl x) \<and> (isfmb u \<or> \<not> isvcl u)
        then a_frames (scan_units pre) @
               [\<lparr>units = a_units (scan_units pre),
                 keyFrame = (\<exists>x \<in> set (a_units (scan_units pre)). isKeyframe x)\<rparr>]
        else a_frames (scan_units pre))
   \<and> a_units (scan_units (pre @ [u])) =
       (if (\<exists>x \<in> set (a_units (scan_units pre)). isvcl x) \<and> (isfmb u \<or> \<not> isvcl u)
        then [u]
        else a_units (scan_units pre) @ [u])"
proof (intro conjI)
  show "a_units (scan_units []) = []" "a_frames (scan_units []) = []"
    by (simp_all add: scan_units_Nil assembler_init_def)
  show "concat (map units (a_frames (scan_units pre))) @ a_units (scan_units pre) = pre"
    by (rule scan_concat)
  show "a_frames (scan_units (pre @ [u])) =
       (if (\<exists>x \<in> set (a_units (scan_units pre)). isvcl x) \<and> (isfmb u \<or> \<not> isvcl u)
        then a_frames (scan_units pre) @
               [\<lparr>units = a_units (scan_units pre),
                 keyFrame = (\<exists>x \<in> set (a_units (scan_units pre)). isKeyframe x)\<rparr>]
        else a_frames (scan_units pre))"
    by (auto simp: scan_units_snoc loop_defs scan_vcl scan_keyFrame[symmetric])
  show "a_units (scan_units (pre @ [u])) =
       (if (\<exists>x \<in> set (a_units (scan_units pre)). isvcl x) \<and> (isfmb u \<or> \<not> isvcl u)
        then [u]
        else a_units (scan_units pre) @ [u])"
    by (auto simp: scan_units_snoc loop_defs scan_vcl)
qed

theorem frame_boundary_exactly_when_witness:
  "a_frames (scan_units ([idr_slice] @ [sei_unit])) = [\<lparr>units = [idr_slice], keyFrame = True\<rparr>]
   \<and> a_units (scan_units ([idr_slice] @ [sei_unit])) = [sei_unit]
   \<and> a_frames (scan_units ([idr_slice, sei_unit] @ [sps_unit])) = [\<lparr>units = [idr_slice], keyFrame = True\<rparr>]
   \<and> a_units (scan_units ([idr_slice, sei_unit] @ [sps_unit])) = [sei_unit, sps_unit]
   \<and> a_frames (scan_units ([idr_slice, sei_unit, sps_unit] @ [pps_unit])) =
       [\<lparr>units = [idr_slice], keyFrame = True\<rparr>]
   \<and> a_units (scan_units ([idr_slice, sei_unit, sps_unit] @ [pps_unit])) = [sei_unit, sps_unit, pps_unit]
   \<and> a_frames (scan_units ([idr_slice] @ [ndr_continued])) = []
   \<and> a_units (scan_units ([idr_slice] @ [ndr_continued])) = [idr_slice, ndr_continued]
   \<and> a_frames (scan_units ([idr_slice, ndr_continued] @ [ndr_slice])) =
       [\<lparr>units = [idr_slice, ndr_continued], keyFrame = True\<rparr>]
   \<and> a_units (scan_units ([idr_slice, ndr_continued] @ [ndr_slice])) = [ndr_slice]
   \<and> a_frames (scan_units ([sps_unit, pps_unit] @ [idr_slice])) = []"
  using frame_boundary_exactly_when[of "[idr_slice]" sei_unit]
    frame_boundary_exactly_when[of "[idr_slice, sei_unit]" sps_unit]
    frame_boundary_exactly_when[of "[idr_slice, sei_unit, sps_unit]" pps_unit]
    frame_boundary_exactly_when[of "[idr_slice]" ndr_continued]
    frame_boundary_exactly_when[of "[idr_slice, ndr_continued]" ndr_slice]
    frame_boundary_exactly_when[of "[sps_unit, pps_unit]" idr_slice]
  by (simp add: demo_units assemble_defs)

subsection \<open>The end of the chunk\<close>

text \<open>
  C6, as the claim words it, fails. For a chunk of two slices that each start a picture,
  the loop has closed a frame holding VCL content when the chunk ends, and the trailing
  slice is still emitted as a frame of its own, where the claim's rule would append it to
  the closed frame.
\<close>

theorem chunk_end_counterexample:
  "a_frames (scan_units [idr_slice, ndr_slice]) = [\<lparr>units = [idr_slice], keyFrame = True\<rparr>]
   \<and> flush_units (scan_units [idr_slice, ndr_slice]) =
       [\<lparr>units = [idr_slice], keyFrame = True\<rparr>, \<lparr>units = [ndr_slice], keyFrame = False\<rparr>]
   \<and> spec_flush_units (scan_units [idr_slice, ndr_slice]) =
       [\<lparr>units = [idr_slice, ndr_slice], keyFrame = True\<rparr>]
   \<and> flush_units (scan_units [idr_slice, ndr_slice]) \<noteq>
       spec_flush_units (scan_units [idr_slice, ndr_slice])"
  by (simp add: demo_units assemble_defs spec_flush_units_def)

text \<open>
  C6, amended. For every non-empty unit sequence the loop leaves a non-empty trailing
  unit list. It is emitted as a frame of its own when it holds a VCL unit or when no
  frame has been closed yet; otherwise (no VCL unit in it, and a closed frame exists) it
  is appended to the unit list of the last closed frame, whose keyframe flag is kept,
  and the number of frames does not grow. In both cases the units of the frames, in
  order, are exactly the units of the chunk: none is dropped.
\<close>

theorem chunk_end_flush:
  assumes "us \<noteq> []"
  shows "a_units (scan_units us) \<noteq> []
    \<and> assemble us =
        (if (\<exists>x \<in> set (a_units (scan_units us)). isvcl x) \<or> a_frames (scan_units us) = []
         then a_frames (scan_units us) @
                [\<lparr>units = a_units (scan_units us), keyFrame = a_keyFrame (scan_units us)\<rparr>]
         else butlast (a_frames (scan_units us)) @
                [(last (a_frames (scan_units us)))
                   \<lparr>units := units (last (a_frames (scan_units us))) @ a_units (scan_units us)\<rparr>])
    \<and> length (assemble us) =
        (if (\<exists>x \<in> set (a_units (scan_units us)). isvcl x) \<or> a_frames (scan_units us) = []
         then length (a_frames (scan_units us)) + 1 else length (a_frames (scan_units us)))
    \<and> concat (map units (assemble us)) = us"
proof -
  have "length (assemble us) =
        (if (\<exists>x \<in> set (a_units (scan_units us)). isvcl x) \<or> a_frames (scan_units us) = []
         then length (a_frames (scan_units us)) + 1 else length (a_frames (scan_units us)))"
    by (subst flush_cases[OF assms]) auto
  then show ?thesis
    using scan_units_nonempty[OF assms] flush_cases[OF assms] assemble_concat[of us] by blast
qed

theorem chunk_end_flush_witness:
  "assemble [idr_slice, ndr_slice, sei_unit] =
     [\<lparr>units = [idr_slice], keyFrame = True\<rparr>, \<lparr>units = [ndr_slice, sei_unit], keyFrame = False\<rparr>]
   \<and> concat (map units (assemble [idr_slice, ndr_slice, sei_unit])) = [idr_slice, ndr_slice, sei_unit]
   \<and> assemble [sps_unit, pps_unit] = [\<lparr>units = [sps_unit, pps_unit], keyFrame = False\<rparr>]"
proof -
  have ne: "[idr_slice, ndr_slice, sei_unit] \<noteq> []" "[sps_unit, pps_unit] \<noteq> []" by simp_all
  show ?thesis
    using chunk_end_flush[OF ne(1)] chunk_end_flush[OF ne(2)]
    by (simp add: demo_units assemble_defs)
qed

subsection \<open>Keyframe flags\<close>

text \<open>
  C7. When every keyframe unit is a VCL unit (an IDR slice is a slice, as the data model
  has it), every frame that video frame assembly produces, a frame extended by trailing
  units at the end of the chunk included, has a keyframe flag equal to the disjunction of
  \<open>isKeyframe\<close> over the units it finally contains.
\<close>

theorem keyFrame_flag_is_or_of_units:
  assumes wf: "\<forall>u \<in> set us. isKeyframe u \<longrightarrow> isvcl u" and f: "f \<in> set (assemble us)"
  shows "keyFrame f = (\<exists>x \<in> set (units f). isKeyframe x)"
proof (cases "us = []")
  case True
  then show ?thesis using f by (simp add: assemble_Nil)
next
  case False
  let ?a = "scan_units us"
  have sub: "set (a_units ?a) \<subseteq> set us"
    using scan_concat[of us] by (metis Un_upper2 set_append)
  show ?thesis
  proof (cases "(\<exists>x \<in> set (a_units ?a). isvcl x) \<or> a_frames ?a = []")
    case True
    then show ?thesis using flush_cases[OF False] f scan_frames_keyFrame[of f us] scan_keyFrame[of us]
      by auto
  next
    case F2: False
    then have ne: "a_frames ?a \<noteq> []" by simp
    have nokey: "\<not> (\<exists>x \<in> set (a_units ?a). isKeyframe x)"
      using F2 wf sub by blast
    have fs: "f \<in> set (butlast (a_frames ?a)) \<or>
       f = (last (a_frames ?a))\<lparr>units := units (last (a_frames ?a)) @ a_units ?a\<rparr>"
      using flush_cases[OF False] F2 f by auto
    then show ?thesis
    proof
      assume "f \<in> set (butlast (a_frames ?a))"
      then have "f \<in> set (a_frames ?a)" by (rule in_set_butlastD)
      then show ?thesis by (rule scan_frames_keyFrame)
    next
      assume e: "f = (last (a_frames ?a))\<lparr>units := units (last (a_frames ?a)) @ a_units ?a\<rparr>"
      have "last (a_frames ?a) \<in> set (a_frames ?a)" using ne by simp
      then have "keyFrame (last (a_frames ?a)) = (\<exists>x \<in> set (units (last (a_frames ?a))). isKeyframe x)"
        by (rule scan_frames_keyFrame)
      then show ?thesis using e nokey by auto
    qed
  qed
qed

theorem keyFrame_flag_is_or_of_units_witness:
  "list_all (\<lambda>u. isKeyframe u \<longrightarrow> isvcl u) [sps_unit, pps_unit, idr_slice, ndr_slice, sei_unit]
   \<and> list_all (\<lambda>f. keyFrame f = (\<exists>x \<in> set (units f). isKeyframe x))
        (assemble [sps_unit, pps_unit, idr_slice, ndr_slice, sei_unit])
   \<and> map keyFrame (assemble [sps_unit, pps_unit, idr_slice, ndr_slice, sei_unit]) = [True, False]"
proof -
  have wf: "\<forall>u \<in> set [sps_unit, pps_unit, idr_slice, ndr_slice, sei_unit]. isKeyframe u \<longrightarrow> isvcl u"
    by (simp add: demo_units)
  have "\<forall>f \<in> set (assemble [sps_unit, pps_unit, idr_slice, ndr_slice, sei_unit]).
          keyFrame f = (\<exists>x \<in> set (units f). isKeyframe x)"
    using keyFrame_flag_is_or_of_units[OF wf] by blast
  moreover have "map keyFrame (assemble [sps_unit, pps_unit, idr_slice, ndr_slice, sei_unit]) = [True, False]"
    by (simp add: demo_units assemble_defs)
  ultimately show ?thesis using wf by (simp add: list_all_iff)
qed

section \<open>Numbers\<close>

subsection \<open>Rounding to a double\<close>

lemma round_even_of_int: "round_even (of_int m) = m"
  by (simp add: round_even_def)

lemma round_even_ge: "of_int i \<le> y \<Longrightarrow> i \<le> round_even y"
proof -
  assume "of_int i \<le> y"
  then have "i \<le> \<lfloor>y\<rfloor>" by (simp add: le_floor_iff)
  then show ?thesis by (auto simp: round_even_def Let_def)
qed

lemma round_even_less: "y < of_int M - 1 / 2 \<Longrightarrow> round_even y < M"
proof -
  assume a: "y < of_int M - 1 / 2"
  then have "y < of_int M" by simp
  then have f: "\<lfloor>y\<rfloor> < M" by (simp add: floor_less_iff)
  show ?thesis
  proof (cases "\<lfloor>y\<rfloor> = M - 1")
    case True
    then have "y - of_int \<lfloor>y\<rfloor> < 1 / 2" using a by simp
    then show ?thesis using f by (simp add: round_even_def Let_def)
  next
    case False
    then have "\<lfloor>y\<rfloor> + 1 < M" using f by simp
    then show ?thesis by (auto simp: round_even_def Let_def)
  qed
qed

lemma expo_le: "0 < x \<Longrightarrow> power_int 2 (expo x) \<le> x"
proof -
  assume x: "0 < x"
  obtain a b where q: "quotient_of x = (a, b)" by (cases "quotient_of x")
  have b: "0 < b" using q by (rule quotient_of_denom_pos)
  have xab: "x = of_int a / of_int b" using q by (rule quotient_of_div)
  have a: "0 < a" using x b xab by (simp add: zero_less_divide_iff)
  let ?d = "bitlen a - bitlen b"
  show ?thesis
  proof (cases "power_int 2 ?d \<le> x")
    case True
    then show ?thesis by (simp add: expo_def q)
  next
    case False
    then have e: "expo x = ?d - 1" by (simp add: expo_def q)
    have la: "bitlen a \<ge> 1" "bitlen b \<ge> 1"
      using a b by (simp_all add: bitlen_alt_def)
    have 1: "(2::rat) ^ nat (bitlen a - 1) \<le> of_int a"
      using bitlen_bounds[OF a] by (metis of_int_le_iff of_int_numeral of_int_power)
    have 2: "of_int b < (2::rat) ^ nat (bitlen b)"
      using bitlen_bounds[OF b] by (metis of_int_less_iff of_int_numeral of_int_power)
    have eq: "?d - 1 = (bitlen a - 1) - bitlen b" by simp
    have "power_int (2::rat) (?d - 1) = power_int 2 (bitlen a - 1) / power_int 2 (bitlen b)"
      unfolding eq by (rule power_int_diff) simp
    also have "\<dots> = 2 ^ nat (bitlen a - 1) / 2 ^ nat (bitlen b)"
      using la by (simp add: power_int_def)
    also have "\<dots> \<le> of_int a / 2 ^ nat (bitlen b)"
      using 1 by (simp add: divide_right_mono)
    also have "\<dots> \<le> of_int a / of_int b"
      using 2 a b by (simp add: frac_le)
    finally show ?thesis using e xab by simp
  qed
qed

lemma expo_less: "0 < x \<Longrightarrow> x < power_int 2 (expo x + 1)"
proof -
  assume x: "0 < x"
  obtain a b where q: "quotient_of x = (a, b)" by (cases "quotient_of x")
  have b: "0 < b" using q by (rule quotient_of_denom_pos)
  have xab: "x = of_int a / of_int b" using q by (rule quotient_of_div)
  have a: "0 < a" using x b xab by (simp add: zero_less_divide_iff)
  let ?d = "bitlen a - bitlen b"
  show ?thesis
  proof (cases "power_int 2 ?d \<le> x")
    case False
    then show ?thesis by (simp add: expo_def q)
  next
    case True
    then have e: "expo x = ?d" by (simp add: expo_def q)
    have la: "bitlen a \<ge> 1" "bitlen b \<ge> 1"
      using a b by (simp_all add: bitlen_alt_def)
    have 1: "of_int a < (2::rat) ^ nat (bitlen a)"
      using bitlen_bounds[OF a] by (metis of_int_less_iff of_int_numeral of_int_power)
    have 2: "(2::rat) ^ nat (bitlen b - 1) \<le> of_int b"
      using bitlen_bounds[OF b] by (metis of_int_le_iff of_int_numeral of_int_power)
    have eq: "?d + 1 = bitlen a - (bitlen b - 1)" by simp
    have "of_int a / of_int b \<le> of_int a / (2::rat) ^ nat (bitlen b - 1)"
      using 2 a by (simp add: frac_le)
    also have "\<dots> < 2 ^ nat (bitlen a) / 2 ^ nat (bitlen b - 1)"
      using 1 by (simp add: divide_strict_right_mono)
    also have "\<dots> = power_int 2 (bitlen a) / power_int 2 (bitlen b - 1)"
      using la by (simp add: power_int_def)
    also have "\<dots> = power_int (2::rat) (?d + 1)"
      unfolding eq by (rule power_int_diff[symmetric]) simp
    finally show ?thesis using e xab by simp
  qed
qed

lemma expo_le_52: "0 < x \<Longrightarrow> x < 2 ^ 53 \<Longrightarrow> expo x \<le> 52"
proof -
  assume x: "0 < x" "x < 2 ^ 53"
  have "power_int (2::rat) (expo x) < power_int 2 53"
    using expo_le[OF x(1)] x(2) by simp
  then have "expo x < 53"
    by (rule power_int_le_imp_less_exp[rotated]) simp_all
  then show ?thesis by simp
qed

lemma ulp_scale:
  assumes "e \<le> 52"
  shows "power_int (2::rat) (e - 52) = 1 / 2 ^ nat (52 - e)"
proof -
  have "power_int (2::rat) (e - 52) = power_int 2 (- (52 - e))" by simp
  also have "\<dots> = inverse (power_int 2 (52 - e))" by (rule power_int_minus)
  also have "\<dots> = 1 / 2 ^ nat (52 - e)" using assms by (simp add: power_int_def inverse_eq_divide)
  finally show ?thesis .
qed

lemma dbl_pos:
  assumes "0 < x"
  shows "dbl x = of_int (round_even (x / power_int 2 (expo x - 52))) * power_int 2 (expo x - 52)"
proof -
  have "\<bar>x\<bar> = x" "sgn x = 1" "x \<noteq> 0" using assms by simp_all
  then show ?thesis by (simp add: dbl_def Let_def)
qed

lemma dbl_of_nat_int: "0 < n \<Longrightarrow> n < 2 ^ 53 \<Longrightarrow> dbl (of_int n) = of_int n"
proof -
  assume n: "0 < n" "n < 2 ^ 53"
  let ?x = "of_int n :: rat"
  have x: "0 < ?x" "?x < 2 ^ 53" using n by (simp, metis of_int_less_iff of_int_numeral of_int_power)
  let ?k = "nat (52 - expo ?x)"
  have u: "power_int (2::rat) (expo ?x - 52) = 1 / 2 ^ ?k"
    using expo_le_52[OF x] by (rule ulp_scale)
  have "?x / (1 / 2 ^ ?k) = of_int (n * 2 ^ ?k)" by simp
  then have "round_even (?x / (1 / 2 ^ ?k)) = n * 2 ^ ?k"
    by (simp only: round_even_of_int)
  then show ?thesis by (simp add: dbl_pos[OF x(1)] u)
qed

lemma dbl_neg: "dbl (- x) = - dbl x"
  by (simp add: dbl_def Let_def)

lemma dbl_of_int: "\<bar>n\<bar> < 2 ^ 53 \<Longrightarrow> dbl (of_int n) = of_int n"
proof -
  assume a: "\<bar>n\<bar> < 2 ^ 53"
  consider "n = 0" | "0 < n" | "n < 0" by linarith
  then show ?thesis
  proof cases
    case 1 then show ?thesis by (simp add: dbl_def)
  next
    case 2 then show ?thesis using a by (simp add: dbl_of_nat_int)
  next
    case 3
    then have "dbl (of_int (- n)) = of_int (- n)" using a by (intro dbl_of_nat_int) simp_all
    then show ?thesis by (simp add: dbl_neg)
  qed
qed

lemma idbl_id: "\<bar>n\<bar> < 2 ^ 53 \<Longrightarrow> idbl n = n"
  by (simp add: idbl_def dbl_of_int)

lemma expo_scaled:
  assumes "0 < x" "expo x \<le> 52"
  shows "2 ^ 52 \<le> x * 2 ^ nat (52 - expo x)"
proof -
  define k where "k = nat (52 - expo x)"
  have "expo x = 52 - int k" using assms(2) by (simp add: k_def)
  then have "power_int (2::rat) (expo x) = power_int 2 (52 - int k)" by simp
  also have "\<dots> = power_int 2 52 / power_int 2 (int k)" by (rule power_int_diff) simp
  also have "\<dots> = 2 ^ 52 / 2 ^ k" by simp
  finally have "(2::rat) ^ 52 / 2 ^ k \<le> x" using expo_le[OF assms(1)] by simp
  then have "2 ^ 52 \<le> x * 2 ^ k" by (simp add: divide_le_eq)
  then show ?thesis by (simp only: k_def)
qed

lemma floor_dbl_div:
  assumes D: "0 < D" "D < 2 ^ 53" and N: "0 < N"
  shows "\<lfloor>dbl (of_int D / of_int N)\<rfloor> = D div N"
proof -
  define x :: rat where "x = of_int D / of_int N"
  define q where "q = D div N"
  define n :: rat where "n = of_int N"
  have n1: "1 \<le> n" "0 < n" using N by (simp_all add: n_def)
  have Dr: "(of_int D :: rat) < 2 ^ 53"
    using D(2) by (metis of_int_less_iff of_int_numeral of_int_power)
  have xn: "x * n = of_int D" using n1 by (simp add: x_def n_def)
  have x0: "0 < x" using D N by (simp add: x_def)
  have "x * 1 \<le> x * n" using x0 n1 by (intro mult_left_mono) simp_all
  then have x53: "x < 2 ^ 53" using xn Dr by simp
  define k where "k = nat (52 - expo x)"
  define p :: rat where "p = 2 ^ k"
  have p0: "0 < p" by (simp add: p_def)
  have e52: "expo x \<le> 52" using expo_le_52[OF x0 x53] .
  have u: "power_int (2::rat) (expo x - 52) = 1 / p"
    unfolding p_def k_def using e52 by (rule ulp_scale)
  define m where "m = round_even (x * p)"
  have val: "dbl x = of_int m / p"
    by (simp add: dbl_pos[OF x0] u m_def)
  have y52: "2 ^ 52 \<le> x * p"
    unfolding p_def k_def using x0 e52 by (rule expo_scaled)
  \<comment> \<open>the integer facts\<close>
  have m0: "0 \<le> D mod N" "D mod N < N" using N by simp_all
  have dm: "q * N + D mod N = D" by (simp add: q_def)
  have lo: "of_int q * n \<le> x * n"
  proof -
    have "q * N \<le> D" using dm m0 by linarith
    then have "(of_int (q * N) :: rat) \<le> of_int D" by (simp only: of_int_le_iff)
    then have "of_int q * n \<le> of_int D" by (simp add: n_def)
    then show ?thesis by (simp only: xn)
  qed
  have hi: "x * n + 1 \<le> of_int (q + 1) * n"
  proof -
    have "D + 1 \<le> q * N + N" using dm m0 by linarith
    then have "D + 1 \<le> (q + 1) * N" by (simp add: algebra_simps)
    then have "(of_int (D + 1) :: rat) \<le> of_int ((q + 1) * N)" by (simp only: of_int_le_iff)
    then have "of_int D + 1 \<le> of_int (q + 1) * n" by (simp add: n_def)
    then show ?thesis by (simp only: xn)
  qed
  have qx: "of_int q \<le> x" using lo n1 by simp
  have xq: "x + 1 / n \<le> of_int (q + 1)"
  proof -
    have "(x + 1 / n) * n \<le> of_int (q + 1) * n" using hi n1 by (simp add: algebra_simps)
    then show ?thesis using n1 by simp
  qed
  \<comment> \<open>half a unit in the last place is below \<open>1 / N\<close>\<close>
  have pn: "n < 2 * p"
  proof -
    have "2 ^ 52 * n \<le> (x * p) * n" using y52 n1 by (intro mult_right_mono) simp_all
    also have "\<dots> = of_int D * p" using xn by (simp add: algebra_simps)
    also have "\<dots> < 2 ^ 53 * p" using Dr p0 by (intro mult_strict_right_mono)
    finally show ?thesis by simp
  qed
  have lower: "q * 2 ^ k \<le> m"
  proof -
    have "of_int q * p \<le> x * p" using qx p0 by (intro mult_right_mono) simp_all
    then have "of_int (q * 2 ^ k) \<le> x * p" by (simp add: p_def)
    then show ?thesis unfolding m_def by (rule round_even_ge)
  qed
  have upper: "m < (q + 1) * 2 ^ k"
  proof -
    have "1 / 2 < p / n" using pn n1 by (simp add: less_divide_eq)
    also have "p / n = (1 / n) * p" by simp
    finally have "x * p + 1 / 2 < (x + 1 / n) * p" by (simp add: algebra_simps)
    also have "\<dots> \<le> of_int (q + 1) * p" using xq p0 by (intro mult_right_mono) simp_all
    finally have "x * p < of_int ((q + 1) * 2 ^ k) - 1 / 2" by (simp add: p_def)
    then show ?thesis unfolding m_def by (rule round_even_less)
  qed
  have "of_int q \<le> dbl x"
  proof -
    have "(of_int (q * 2 ^ k) :: rat) \<le> of_int m" using lower by (simp only: of_int_le_iff)
    then show ?thesis using p0 by (simp add: val p_def le_divide_eq)
  qed
  moreover have "dbl x < of_int q + 1"
  proof -
    have "(of_int m :: rat) < of_int ((q + 1) * 2 ^ k)" using upper by (simp only: of_int_less_iff)
    then show ?thesis using p0 by (simp add: val p_def divide_less_eq)
  qed
  ultimately have "\<lfloor>dbl x\<rfloor> = q" by (rule floor_unique)
  then show ?thesis by (simp add: x_def q_def)
qed

lemma trunc_floor: "0 \<le> \<lfloor>y\<rfloor> \<Longrightarrow> trunc y = \<lfloor>y\<rfloor>"
  by (simp add: trunc_def)

lemma toInt32_id: "- (2 ^ 31) \<le> x \<Longrightarrow> x < 2 ^ 31 \<Longrightarrow> toInt32 x = x"
  by (simp add: toInt32_def)

text \<open>Below \<open>2 ^ 53\<close> the rounded quotient truncates to the integer quotient.\<close>

lemma div_int32_pos:
  assumes "0 < d" "d < 2 ^ 53" "0 < n" "d div n < 2 ^ 31"
  shows "div_int32 d n = d div n"
proof -
  have f: "\<lfloor>dbl (of_int d / of_int n)\<rfloor> = d div n"
    using assms(1,2,3) by (rule floor_dbl_div)
  have q0: "0 \<le> d div n" using assms(1,3) by (simp add: pos_imp_zdiv_nonneg_iff)
  then have "trunc (dbl (of_int d / of_int n)) = d div n"
    using f by (simp add: trunc_floor)
  then show ?thesis using assms(3,4) q0 by (simp add: div_int32_def toInt32_id)
qed

section \<open>Durations\<close>

subsection \<open>The durations that the map callbacks assign\<close>

lemma stamp_video_Cons:
  "fst (stamp_video fd tt s (f # fs)) =
     \<lparr>units = units f, keyFrame = keyFrame f, duration = (if tt > 0 then idbl (fd + 1) else fd)\<rparr> #
     fst (stamp_video fd (if tt > 0 then idbl (tt - 1) else tt) (count_frame fd s f) fs)"
  "snd (stamp_video fd tt s (f # fs)) =
     snd (stamp_video fd (if tt > 0 then idbl (tt - 1) else tt) (count_frame fd s f) fs)"
  by (simp_all add: Let_def case_prod_beta)

lemma stamp_video_durations:
  "0 \<le> tt \<Longrightarrow> tt < 2 ^ 53 \<Longrightarrow> map duration (fst (stamp_video fd tt s fs)) =
     replicate (min (nat tt) (length fs)) (idbl (fd + 1)) @ replicate (length fs - nat tt) fd"
proof (induction fs arbitrary: tt s)
  case Nil
  then show ?case by simp
next
  case (Cons f fs)
  show ?case
  proof (cases "tt > 0")
    case True
    then have n: "nat tt = Suc (nat (tt - 1))" by simp
    have i: "idbl (tt - 1) = tt - 1" using True Cons.prems by (intro idbl_id) simp
    have "0 \<le> tt - 1" "tt - 1 < 2 ^ 53" using True Cons.prems by simp_all
    then show ?thesis using Cons.IH[of "tt - 1"] True n
      by (simp add: stamp_video_Cons i del: stamp_video.simps(2))
  next
    case False
    then have "tt = 0" using Cons.prems by simp
    then show ?thesis using Cons.IH[of 0]
      by (simp add: stamp_video_Cons del: stamp_video.simps(2))
  qed
qed

lemma stamp_audio_durations:
  "0 \<le> tt \<Longrightarrow> tt < 2 ^ 53 \<Longrightarrow> map aduration (stamp_audio fd tt us) =
     replicate (min (nat tt) (length us)) (idbl (fd + 1)) @ replicate (length us - nat tt) fd"
proof (induction us arbitrary: tt)
  case Nil
  then show ?case by simp
next
  case (Cons u us)
  show ?case
  proof (cases "tt > 0")
    case True
    then have n: "nat tt = Suc (nat (tt - 1))" by simp
    have i: "idbl (tt - 1) = tt - 1" using True Cons.prems by (intro idbl_id) simp
    have "0 \<le> tt - 1" "tt - 1 < 2 ^ 53" using True Cons.prems by simp_all
    then show ?thesis using Cons.IH[of "tt - 1"] True n
      by (simp add: Let_def i)
  next
    case False
    then have "tt = 0" using Cons.prems by simp
    then show ?thesis using Cons.IH[of 0]
      by (simp add: Let_def)
  qed
qed

lemma fd_tt_explicit:
  assumes "0 < D" "D < 2 ^ 53" "0 < n" "D div int n < 2 ^ 31"
  shows "frame_fd s D n = D div int n" "frame_tt s D n = D mod int n"
    "idbl (D div int n + 1) = D div int n + 1"
proof -
  have n: "0 < int n" using assms(3) by simp
  show fd: "frame_fd s D n = D div int n"
    using assms(1,2,4) n by (simp add: frame_fd_def div_int32_pos)
  have m: "0 \<le> D mod int n" "D mod int n \<le> D"
    using assms(1) n by (simp_all add: zmod_le_nonneg_dividend)
  have p: "D div int n * int n = D - D mod int n"
    by (simp add: algebra_simps minus_mod_eq_mult_div)
  have "\<bar>D div int n * int n\<bar> < 2 ^ 53" using p m assms(2) by simp
  then have 1: "idbl (D div int n * int n) = D div int n * int n" by (rule idbl_id)
  have "\<bar>D mod int n\<bar> < 2 ^ 53" using m assms(2) by simp
  then have 2: "idbl (D mod int n) = D mod int n" by (rule idbl_id)
  have "D - D div int n * int n = D mod int n" using p by simp
  then show "frame_tt s D n = D mod int n"
    using assms(1) fd 1 2 by (simp add: frame_tt_def)
  have "0 \<le> D div int n" using assms(1) n by (simp add: pos_imp_zdiv_nonneg_iff)
  then show "idbl (D div int n + 1) = D div int n + 1"
    using assms(4) by (intro idbl_id) simp
qed

lemma sum_replicate_split:
  "r \<le> n \<Longrightarrow> sum_list (replicate r (q + 1) @ replicate (n - r) (q::int)) = q * int n + int r"
  by (simp add: sum_list_replicate algebra_simps)

lemma remainder_shape:
  assumes "0 < D" "0 < n"
  shows "nat (D mod int n) \<le> n" "min (nat (D mod int n)) n = nat (D mod int n)"
    "0 \<le> D mod int n" "D mod int n < 2 ^ 53 \<or> 2 ^ 53 \<le> D"
proof -
  have n: "0 < int n" using assms(2) by simp
  show a: "nat (D mod int n) \<le> n" using n by (simp add: nat_le_iff less_imp_le)
  then show "min (nat (D mod int n)) n = nat (D mod int n)" by simp
  show "0 \<le> D mod int n" using n by simp
  have "D mod int n \<le> D" using assms(1) n by (simp add: zmod_le_nonneg_dividend)
  then show "D mod int n < 2 ^ 53 \<or> 2 ^ 53 \<le> D" by linarith
qed

lemma video_durations_explicit:
  assumes "0 < D" "D < 2 ^ 53" "nalus \<noteq> []"
    and "D div int (length (assemble (map (make_unit P) nalus))) < 2 ^ 31"
  shows "map duration (fst (getVideoFrames P s nalus D)) =
     replicate (nat (D mod int (length (assemble (map (make_unit P) nalus)))))
       (D div int (length (assemble (map (make_unit P) nalus))) + 1)
     @ replicate (length (assemble (map (make_unit P) nalus))
                  - nat (D mod int (length (assemble (map (make_unit P) nalus)))))
       (D div int (length (assemble (map (make_unit P) nalus))))"
proof -
  let ?n = "length (assemble (map (make_unit P) nalus))"
  have N: "0 < ?n" using assms(3) assemble_nonempty[of "map (make_unit P) nalus"] by simp
  note e = fd_tt_explicit[OF assms(1,2) N assms(4)]
  note r = remainder_shape[OF assms(1) N]
  have tt: "0 \<le> D mod int ?n" "D mod int ?n < 2 ^ 53" using r assms(2) by auto
  show ?thesis
    using stamp_video_durations[OF tt] r(2)
    by (simp add: getVideoFrames_def Let_def e)
qed

lemma audio_durations_explicit:
  assumes "0 < D" "D < 2 ^ 53" "aacFrames \<noteq> []"
    and "D div int (length aacFrames) < 2 ^ 31"
  shows "map aduration (getAudioFrames s aacFrames D) =
     replicate (nat (D mod int (length aacFrames))) (D div int (length aacFrames) + 1)
     @ replicate (length aacFrames - nat (D mod int (length aacFrames)))
       (D div int (length aacFrames))"
proof -
  let ?n = "length aacFrames"
  have N: "0 < ?n" using assms(3) by simp
  note e = fd_tt_explicit[OF assms(1,2) N assms(4)]
  note r = remainder_shape[OF assms(1) N]
  have tt: "0 \<le> D mod int ?n" "D mod int ?n < 2 ^ 53" using r assms(2) by auto
  show ?thesis
    using stamp_audio_durations[OF tt] r(2)
    by (simp add: getAudioFrames_def Let_def e)
qed

lemma scan_units_replicate_slice:
  assumes "isvcl u" "isfmb u"
  shows "scan_units (replicate (Suc n) u) =
     \<lparr>a_units = [u], a_frames = replicate n \<lparr>units = [u], keyFrame = isKeyframe u\<rparr>,
      a_keyFrame = isKeyframe u, a_vcl = True\<rparr>"
proof (induction n)
  case 0
  show ?case using assms by (simp add: scan_units_def assembler_init_def loop_defs)
next
  case (Suc n)
  have "replicate (Suc (Suc n)) u = replicate (Suc n) u @ [u]"
    by (simp add: replicate_append_same)
  then have "scan_units (replicate (Suc (Suc n)) u) = loop_body (scan_units (replicate (Suc n) u)) u"
    by (simp only: scan_units_snoc)
  then show ?case using assms Suc
    by (simp add: loop_defs replicate_append_same)
qed

lemma assemble_replicate_slice:
  assumes "isvcl u" "isfmb u"
  shows "assemble (replicate n u) = replicate n \<lparr>units = [u], keyFrame = isKeyframe u\<rparr>"
proof (cases n)
  case 0
  then show ?thesis by (simp add: assemble_Nil)
next
  case (Suc m)
  have s: "scan_units (replicate n u) =
     \<lparr>a_units = [u], a_frames = replicate m \<lparr>units = [u], keyFrame = isKeyframe u\<rparr>,
      a_keyFrame = isKeyframe u, a_vcl = True\<rparr>"
    unfolding Suc by (rule scan_units_replicate_slice[OF assms])
  show ?thesis
    unfolding assemble_def flush_units_def s by (simp add: Suc replicate_append_same)
qed

lemma demo_make_unit:
  "make_unit demo_parsers [0x65] = idr_slice"
  "make_unit demo_parsers [0x41] = ndr_slice"
  "make_unit demo_parsers [0x06] = sei_unit"
  by (simp_all add: idr_slice_def ndr_slice_def sei_unit_def)

subsection \<open>Duration conservation\<close>

text \<open>
  C1, as the claim words it, fails, in two ways. \<open>duration / frames.length | 0\<close> wraps
  into the signed 32-bit range: a chunk of one frame with the explicit duration \<open>2 ^ 31\<close>
  gets \<open>fd = - 2 ^ 31\<close>, the remainder \<open>tt\<close> is positive, and the single frame's duration
  is \<open>- 2147483647\<close>, for audio and for video. And the quotient is a rounded double: with
  \<open>D = 9007200336871424\<close> (above \<open>2 ^ 53\<close>) and 8388609 frames the quotient
  \<open>2 ^ 30 + 1 - 1 / 8388609\<close> rounds up to \<open>2 ^ 30 + 1\<close>, the product \<open>fd * N = D + 1\<close>
  rounds back to \<open>D\<close>, so \<open>tt = 0\<close> and the durations sum to \<open>D + 1\<close>.
\<close>

theorem duration_conservation_counterexample:
  "0 < (2147483648 :: int)
   \<and> map aduration (getAudioFrames (new_jmuxer (demo_options Both)) [[1]] 2147483648) = [- 2147483647]
   \<and> sum_list (map aduration (getAudioFrames (new_jmuxer (demo_options Both)) [[1]] 2147483648))
       \<noteq> 2147483648
   \<and> map duration (fst (getVideoFrames demo_parsers (new_jmuxer (demo_options Both)) [[0x65]] 2147483648))
       = [- 2147483647]
   \<and> sum_list (map duration (fst (getVideoFrames demo_parsers (new_jmuxer (demo_options Both)) [[0x65]] 2147483648)))
       \<noteq> 2147483648
   \<and> (9007200336871424 :: int) div 8388609 < 2 ^ 31
   \<and> frame_fd (new_jmuxer (demo_options Both)) 9007200336871424 8388609 = 1073741825
   \<and> frame_tt (new_jmuxer (demo_options Both)) 9007200336871424 8388609 = 0
   \<and> sum_list (map aduration
        (getAudioFrames (new_jmuxer (demo_options Both)) (replicate 8388609 []) 9007200336871424))
       = 9007200336871425"
proof -
  let ?s = "new_jmuxer (demo_options Both)"
  have a: "map aduration (getAudioFrames ?s [[1]] 2147483648) = [- 2147483647]"
    by code_simp
  have v: "map duration (fst (getVideoFrames demo_parsers ?s [[0x65]] 2147483648)) = [- 2147483647]"
    by code_simp
  have q: "div_int32 9007200336871424 8388609 = 1073741825"
    by code_simp
  have z: "idbl (9007200336871424 - idbl 9007200336871425) = 0"
    by code_simp
  have fd: "frame_fd ?s 9007200336871424 8388609 = 1073741825"
    by (simp add: frame_fd_def q)
  have tt: "frame_tt ?s 9007200336871424 8388609 = 0"
    by (simp add: frame_tt_def fd z)
  have "map aduration (getAudioFrames ?s (replicate 8388609 []) 9007200336871424)
      = replicate 8388609 1073741825"
    using stamp_audio_durations[of 0 1073741825 "replicate 8388609 []"]
    by (simp add: getAudioFrames_def Let_def fd tt)
  then have r: "sum_list (map aduration (getAudioFrames ?s (replicate 8388609 []) 9007200336871424))
      = 9007200336871425"
    by (simp add: sum_list_replicate)
  show ?thesis using a v fd tt r by simp
qed

text \<open>
  C1, amended. For every chunk with an explicit positive integer duration \<open>D < 2 ^ 53\<close>
  that is assembled into \<open>N \<ge> 1\<close> frames with \<open>D div N < 2 ^ 31\<close> (the quotient fits the
  32-bit conversion), the durations assigned to the \<open>N\<close> frames sum to \<open>D\<close> exactly, by
  getVideoFrames and by getAudioFrames.
\<close>

theorem duration_conservation:
  assumes "0 < D" and "D < 2 ^ 53"
  shows "(nalus \<noteq> [] \<and> D div int (length (assemble (map (make_unit P) nalus))) < 2 ^ 31
          \<longrightarrow> sum_list (map duration (fst (getVideoFrames P s nalus D))) = D)
       \<and> (aacFrames \<noteq> [] \<and> D div int (length aacFrames) < 2 ^ 31
          \<longrightarrow> sum_list (map aduration (getAudioFrames s aacFrames D)) = D)"
proof (intro conjI impI)
  assume a: "nalus \<noteq> [] \<and> D div int (length (assemble (map (make_unit P) nalus))) < 2 ^ 31"
  let ?n = "length (assemble (map (make_unit P) nalus))"
  have N: "0 < ?n" using a assemble_nonempty[of "map (make_unit P) nalus"] by simp
  have "map duration (fst (getVideoFrames P s nalus D)) =
     replicate (nat (D mod int ?n)) (D div int ?n + 1) @ replicate (?n - nat (D mod int ?n)) (D div int ?n)"
    using a by (intro video_durations_explicit[OF assms]) simp_all
  then show "sum_list (map duration (fst (getVideoFrames P s nalus D))) = D"
    using sum_replicate_split[OF remainder_shape(1)[OF assms(1) N], of "D div int ?n"]
      remainder_shape(3)[OF assms(1) N]
    by (simp add: mult.commute)
next
  assume a: "aacFrames \<noteq> [] \<and> D div int (length aacFrames) < 2 ^ 31"
  let ?n = "length aacFrames"
  have N: "0 < ?n" using a by simp
  have "map aduration (getAudioFrames s aacFrames D) =
     replicate (nat (D mod int ?n)) (D div int ?n + 1) @ replicate (?n - nat (D mod int ?n)) (D div int ?n)"
    using a by (intro audio_durations_explicit[OF assms]) simp_all
  then show "sum_list (map aduration (getAudioFrames s aacFrames D)) = D"
    using sum_replicate_split[OF remainder_shape(1)[OF assms(1) N], of "D div int ?n"]
      remainder_shape(3)[OF assms(1) N]
    by (simp add: mult.commute)
qed

theorem duration_conservation_witness:
  "0 < (100 :: int)
   \<and> sum_list (map duration (fst (getVideoFrames demo_parsers (new_jmuxer (demo_options Both)) [[0x65], [0x41], [0x41]] 100))) = 100
   \<and> sum_list (map aduration (getAudioFrames (new_jmuxer (demo_options Both)) [[1], [2], [3]] 100)) = 100"
proof -
  have n: "length (assemble (map (make_unit demo_parsers) [[0x65], [0x41], [0x41]])) = 3"
    by (simp add: demo_make_unit demo_units assemble_defs)
  have h: "0 < (100::int)" "(100::int) < 2 ^ 53" by simp_all
  show ?thesis
    using duration_conservation[OF h, where nalus = "[[0x65], [0x41], [0x41]]" and P = demo_parsers
        and aacFrames = "[[1], [2], [3]]" and s = "new_jmuxer (demo_options Both)"] n
    by simp
qed

subsection \<open>The shape of the remainder distribution\<close>

text \<open>
  C4, as the claim words it, fails for the same two reasons. With \<open>D = 2 ^ 32\<close> and two
  frames the base duration is not \<open>D div N = 2 ^ 31\<close> but \<open>- 2 ^ 31\<close>, and both frames are
  incremented although \<open>D mod N = 0\<close>. With \<open>D = 9007200336871424\<close> and 8388609 frames
  (\<open>D div N = 2 ^ 30\<close>, \<open>D mod N = 8388608\<close>) every frame gets \<open>2 ^ 30 + 1\<close>, the last
  one included, which the claim's shape gives \<open>2 ^ 30\<close>.
\<close>

theorem remainder_distribution_counterexample:
  "length (assemble (map (make_unit demo_parsers) [[0x65], [0x41]])) = 2
   \<and> map duration (fst (getVideoFrames demo_parsers (new_jmuxer (demo_options Both)) [[0x65], [0x41]] 4294967296))
       = [- 2147483647, - 2147483647]
   \<and> map duration (fst (getVideoFrames demo_parsers (new_jmuxer (demo_options Both)) [[0x65], [0x41]] 4294967296))
       \<noteq> replicate (nat (4294967296 mod 2)) (4294967296 div 2 + 1)
          @ replicate (2 - nat (4294967296 mod 2)) (4294967296 div 2)
   \<and> length (assemble (map (make_unit demo_parsers) (replicate 8388609 [0x65]))) = 8388609
   \<and> (9007200336871424 :: int) div 8388609 = 1073741824
   \<and> (9007200336871424 :: int) mod 8388609 = 8388608
   \<and> map duration (fst (getVideoFrames demo_parsers (new_jmuxer (demo_options Both))
        (replicate 8388609 [0x65]) 9007200336871424))
       = replicate 8388609 1073741825
   \<and> last (map duration (fst (getVideoFrames demo_parsers (new_jmuxer (demo_options Both))
        (replicate 8388609 [0x65]) 9007200336871424)))
       \<noteq> 9007200336871424 div 8388609"
proof -
  let ?s = "new_jmuxer (demo_options Both)"
  have n2: "length (assemble (map (make_unit demo_parsers) [[0x65], [0x41]])) = 2"
    by (simp add: demo_make_unit demo_units assemble_defs)
  have v: "map duration (fst (getVideoFrames demo_parsers ?s [[0x65], [0x41]] 4294967296))
       = [- 2147483647, - 2147483647]"
    by code_simp
  have ne: "[- 2147483647, - 2147483647] \<noteq>
      replicate (nat (4294967296 mod 2)) (4294967296 div 2 + 1)
          @ replicate (2 - nat (4294967296 mod 2)) (4294967296 div 2 :: int)"
    by (simp add: numeral_2_eq_2)
  have sl: "isvcl idr_slice" "isfmb idr_slice" by (simp_all add: demo_units)
  have as: "assemble (replicate 8388609 (make_unit demo_parsers [0x65]))
      = replicate 8388609 \<lparr>units = [idr_slice], keyFrame = isKeyframe idr_slice\<rparr>"
    by (simp add: demo_make_unit assemble_replicate_slice[OF sl])
  have q: "div_int32 9007200336871424 8388609 = 1073741825"
    by code_simp
  have z: "idbl (9007200336871424 - idbl 9007200336871425) = 0"
    by code_simp
  have fd: "frame_fd ?s 9007200336871424 8388609 = 1073741825"
    by (simp add: frame_fd_def q)
  have tt: "frame_tt ?s 9007200336871424 8388609 = 0"
    by (simp add: frame_tt_def fd z)
  have big: "map duration (fst (getVideoFrames demo_parsers ?s (replicate 8388609 [0x65]) 9007200336871424))
      = replicate 8388609 1073741825"
    using stamp_video_durations[of 0 1073741825 ?s
        "replicate 8388609 \<lparr>units = [idr_slice], keyFrame = isKeyframe idr_slice\<rparr>"]
    by (simp add: getVideoFrames_def Let_def as fd tt)
  have l: "last (replicate 8388609 (1073741825 :: int)) = 1073741825"
    by (rule last_replicate) simp
  show ?thesis using n2 v ne as big l by simp
qed

text \<open>
  C4, amended. For every chunk with an explicit positive duration \<open>D < 2 ^ 53\<close> assembled
  by getVideoFrames into \<open>N\<close> frames with \<open>D div N < 2 ^ 31\<close>: \<open>N \<ge> 1\<close>, the first
  \<open>D mod N\<close> frames in order get the duration \<open>D div N + 1\<close> and all later frames get
  \<open>D div N\<close>. With \<open>D = 100\<close> and three frames the durations are 34, 33, 33.
\<close>

theorem remainder_distribution:
  assumes "nalus \<noteq> []" and "0 < D" and "D < 2 ^ 53"
    and "N = length (assemble (map (make_unit P) nalus))"
    and "D div int N < 2 ^ 31"
  shows "0 < N \<and> map duration (fst (getVideoFrames P s nalus D)) =
     replicate (nat (D mod int N)) (D div int N + 1) @ replicate (N - nat (D mod int N)) (D div int N)"
proof -
  have N: "0 < N" using assms(1,4) assemble_nonempty[of "map (make_unit P) nalus"] by simp
  have b: "D div int (length (assemble (map (make_unit P) nalus))) < 2 ^ 31"
    using assms(4,5) by simp
  show ?thesis
    using N video_durations_explicit[OF assms(2,3,1) b, of s] assms(4) by simp
qed

theorem remainder_distribution_witness:
  "length (assemble (map (make_unit demo_parsers) [[0x65], [0x41], [0x41]])) = 3
   \<and> map duration (fst (getVideoFrames demo_parsers (new_jmuxer (demo_options Both)) [[0x65], [0x41], [0x41]] 100))
       = [34, 33, 33]"
proof -
  have n: "(3::nat) = length (assemble (map (make_unit demo_parsers) [[0x65], [0x41], [0x41]]))"
    by (simp add: demo_make_unit demo_units assemble_defs)
  have h: "[[0x65], [0x41], [0x41 :: byte]] \<noteq> []" "0 < (100::int)" "(100::int) < 2 ^ 53"
    "(100::int) div int 3 < 2 ^ 31"
    by simp_all
  show ?thesis
    using remainder_distribution[OF h(1) h(2) h(3) n h(4), of "new_jmuxer (demo_options Both)"] n
    by (simp add: numeral_3_eq_3)
qed

section \<open>The keyframe position ledger and the safe clear offset\<close>

subsection \<open>What getSafeClearOffsetOfBuffer computes\<close>

lemma scan_adjacent_eq:
  "scan_adjacent L p adj =
     (if takeWhile (\<lambda>k. k < p) L = [] then adj else Some (last (takeWhile (\<lambda>k. k < p) L)))"
  by (induction L arbitrary: adj) (auto simp: not_le)

lemma prune_fst: "fst (prune a L m) = filter (\<lambda>k. a \<le> k) L"
  by (induction L arbitrary: m) (auto simp: Let_def case_prod_beta)

lemma prune_snd:
  "snd (prune a L m) = (if filter (\<lambda>k. k < a) L = [] then m else last (filter (\<lambda>k. k < a) L))"
  by (induction L arbitrary: m) (auto simp: Let_def case_prod_beta)

lemma scan_adjacent_Some:
  assumes "scan_adjacent L p None = Some a"
  shows "a \<in> set L" "a < p" "takeWhile (\<lambda>k. k < p) L \<noteq> []" "a = last (takeWhile (\<lambda>k. k < p) L)"
proof -
  let ?T = "takeWhile (\<lambda>k. k < p) L"
  show ne: "?T \<noteq> []" using assms by (auto simp: scan_adjacent_eq split: if_splits)
  show a: "a = last ?T" using assms ne by (simp add: scan_adjacent_eq)
  have "a \<in> set ?T" using a ne by simp
  then show "a \<in> set L" "a < p"
    by (auto dest: set_takeWhileD)
qed

lemma getSafe_fst:
  "fst (getSafeClearOffsetOfBuffer s p) =
    (let m0 = (if mode (opts s) = Audio \<and> p \<noteq> 0 then p else 0)
     in case scan_adjacent (kfPosition s) p None of
          None \<Rightarrow> m0
        | Some a \<Rightarrow> if a \<noteq> 0 then snd (prune a (kfPosition s) m0) else m0)"
  by (simp add: getSafeClearOffsetOfBuffer_def Let_def case_prod_beta split: option.splits)

lemma getSafe_kfPosition:
  "kfPosition (snd (getSafeClearOffsetOfBuffer s p)) =
    (case scan_adjacent (kfPosition s) p None of
          None \<Rightarrow> kfPosition s
        | Some a \<Rightarrow> if a \<noteq> 0 then filter (\<lambda>k. a \<le> k) (kfPosition s) else kfPosition s)"
  by (simp add: getSafeClearOffsetOfBuffer_def Let_def case_prod_beta prune_fst split: option.splits)

lemma getSafe_other:
  "kfCounter (snd (getSafeClearOffsetOfBuffer s p)) = kfCounter s"
  "frameDuration (snd (getSafeClearOffsetOfBuffer s p)) = frameDuration s"
  "opts (snd (getSafeClearOffsetOfBuffer s p)) = opts s"
  "remuxController (snd (getSafeClearOffsetOfBuffer s p)) = remuxController s"
  by (simp_all add: getSafeClearOffsetOfBuffer_def Let_def case_prod_beta split: option.splits)

lemma last_filter_less: "filter (\<lambda>k. k < a) L \<noteq> [] \<Longrightarrow> last (filter (\<lambda>k. k < a) L) < (a::rat)"
proof -
  assume ne: "filter (\<lambda>k. k < a) L \<noteq> []"
  then have "last (filter (\<lambda>k. k < a) L) \<in> set (filter (\<lambda>k. k < a) L)" by (rule last_in_set)
  then show ?thesis by simp
qed

lemma getSafe_result_cases:
  "fst (getSafeClearOffsetOfBuffer s p) = (if mode (opts s) = Audio then p else 0)
   \<or> (\<exists>a \<in> set (kfPosition s). a < p \<and> a \<noteq> 0 \<and>
         scan_adjacent (kfPosition s) p None = Some a \<and>
         fst (getSafeClearOffsetOfBuffer s p) \<in> set (kfPosition s) \<and>
         fst (getSafeClearOffsetOfBuffer s p) < a)"
proof (cases "scan_adjacent (kfPosition s) p None")
  case None
  then show ?thesis by (auto simp: getSafe_fst)
next
  case (Some a)
  show ?thesis
  proof (cases "a \<noteq> 0 \<and> filter (\<lambda>k. k < a) (kfPosition s) \<noteq> []")
    case True
    let ?r = "last (filter (\<lambda>k. k < a) (kfPosition s))"
    have r: "fst (getSafeClearOffsetOfBuffer s p) = ?r"
      using Some True by (simp add: getSafe_fst prune_snd)
    have "?r \<in> set (filter (\<lambda>k. k < a) (kfPosition s))" using True by (intro last_in_set) simp
    then have "?r \<in> set (kfPosition s)" "?r < a" by simp_all
    then show ?thesis
      using r Some True scan_adjacent_Some(1,2)[OF Some] by auto
  next
    case False
    then show ?thesis using Some by (auto simp: getSafe_fst prune_snd)
  qed
qed

lemma two_in_filter:
  assumes "x \<in> set L" "a \<in> set L" "x < a" "a < (p::rat)"
  shows "2 \<le> length (filter (\<lambda>k. k < p) L)"
proof -
  let ?F = "filter (\<lambda>k. k < p) L"
  have "{x, a} \<subseteq> set ?F" using assms by auto
  then have "card {x, a} \<le> card (set ?F)" by (intro card_mono) auto
  moreover have "card {x, a} = 2" using assms(3) by simp
  ultimately show ?thesis using card_length[of ?F] by linarith
qed

lemma new_jmuxer_ledger: "kfPosition (new_jmuxer options) = []" "kfCounter (new_jmuxer options) = 0"
  by (simp_all add: new_jmuxer_def Let_def)

lemma demo_extract: "extractNALu demo_parsers v = map (\<lambda>b. [b]) v" "extractAAC demo_parsers v = map (\<lambda>b. [b]) v"
  by (simp_all add: demo_parsers_def)

subsection \<open>The clear offset never passes the playback position\<close>

text \<open>
  C10. For every playback position \<open>p \<ge> 0\<close>, every ledger state and every mode, the
  value that getSafeClearOffsetOfBuffer returns is at most \<open>p\<close>.
\<close>

theorem clear_offset_le_position: "0 \<le> p \<Longrightarrow> fst (getSafeClearOffsetOfBuffer s p) \<le> p"
proof -
  assume p: "0 \<le> p"
  let ?m0 = "if mode (opts s) = Audio \<and> p \<noteq> 0 then p else 0"
  have m0: "?m0 \<le> p" using p by simp
  show ?thesis
  proof (cases "scan_adjacent (kfPosition s) p None")
    case None
    then show ?thesis using m0 by (simp add: getSafe_fst)
  next
    case (Some a)
    have ap: "a < p" using scan_adjacent_Some(2)[OF Some] .
    have "snd (prune a (kfPosition s) ?m0) \<le> p"
      using last_filter_less[of a "kfPosition s"] ap m0 by (auto simp: prune_snd)
    then show ?thesis using Some m0 by (simp add: getSafe_fst Let_def)
  qed
qed


theorem clear_offset_le_position_witness:
  "(0::rat) \<le> 5
   \<and> fst (getSafeClearOffsetOfBuffer ((new_jmuxer (demo_options Audio))\<lparr>kfPosition := [1, 2]\<rparr>) 5) \<le> 5
   \<and> fst (getSafeClearOffsetOfBuffer ((new_jmuxer (demo_options Video))\<lparr>kfPosition := [1, 2, 3, 4]\<rparr>) (7 / 2)) \<le> 7 / 2"
proof -
  have h: "(0::rat) \<le> 5" "(0::rat) \<le> 7 / 2" by simp_all
  show ?thesis
    using clear_offset_le_position[OF h(1), of "(new_jmuxer (demo_options Audio))\<lparr>kfPosition := [1, 2]\<rparr>"]
      clear_offset_le_position[OF h(2), of "(new_jmuxer (demo_options Video))\<lparr>kfPosition := [1, 2, 3, 4]\<rparr>"]
    by simp
qed


subsection \<open>Eviction safety\<close>

text \<open>
  C2, as the claim words it, fails. \<open>feed\<close> hands video to getVideoFrames in every mode, so
  an audio-only instance that is fed video keeps a ledger; with the entries 1 and 2 and
  the playback position 5 it returns 1, not the raw position 5. And a ledger with a
  negative entry (a chunk with a negative duration) gives a clear offset 0 above the entry
  that precedes the keyframe at the playback position.
\<close>

theorem safe_clear_offset_counterexample:
  "mode (opts (run demo_parsers (new_jmuxer (demo_options Audio))
      [FeedOp (Some (video_chunk [0x65] (Some 1000))), FeedOp (Some (video_chunk [0x65] (Some 1000)))])) = Audio
   \<and> kfPosition (run demo_parsers (new_jmuxer (demo_options Audio))
      [FeedOp (Some (video_chunk [0x65] (Some 1000))), FeedOp (Some (video_chunk [0x65] (Some 1000)))]) = [1, 2]
   \<and> fst (getSafeClearOffsetOfBuffer (run demo_parsers (new_jmuxer (demo_options Audio))
      [FeedOp (Some (video_chunk [0x65] (Some 1000))), FeedOp (Some (video_chunk [0x65] (Some 1000)))]) 5) = 1
   \<and> fst (getSafeClearOffsetOfBuffer (run demo_parsers (new_jmuxer (demo_options Audio))
      [FeedOp (Some (video_chunk [0x65] (Some 1000))), FeedOp (Some (video_chunk [0x65] (Some 1000)))]) 5) \<noteq> 5
   \<and> kfPosition (run demo_parsers (new_jmuxer (demo_options Video))
      [FeedOp (Some (video_chunk [0x65] (Some (- 2000)))), FeedOp (Some (video_chunk [0x65] (Some 2500)))]) = [- 2, 5]
   \<and> fst (getSafeClearOffsetOfBuffer (run demo_parsers (new_jmuxer (demo_options Video))
      [FeedOp (Some (video_chunk [0x65] (Some (- 2000)))), FeedOp (Some (video_chunk [0x65] (Some 2500)))]) 5) = 0
   \<and> \<not> fst (getSafeClearOffsetOfBuffer (run demo_parsers (new_jmuxer (demo_options Video))
      [FeedOp (Some (video_chunk [0x65] (Some (- 2000)))), FeedOp (Some (video_chunk [0x65] (Some 2500)))]) 5) \<le> - 2"
  by code_simp

text \<open>
  C2, amended. Let the ledger be strictly ascending with no negative entry. In video or
  both mode, for every playback position \<open>p\<close>: if \<open>k\<close> is the greatest ledger entry with
  \<open>k \<le> p\<close> and \<open>k'\<close> the entry immediately before \<open>k\<close>, the returned offset is at most
  \<open>k'\<close>; and whether or not \<open>k\<close> has a predecessor, the returned offset is at most \<open>k\<close>
  and below \<open>k\<close> when \<open>k > 0\<close>. In audio-only mode the returned offset is the raw
  position \<open>p\<close> whenever fewer than two ledger entries lie below \<open>p\<close>, in particular
  whenever the ledger is empty.
\<close>

theorem safe_clear_offset:
  assumes asc: "sorted_wrt (<) (kfPosition s)" and nonneg: "\<forall>x \<in> set (kfPosition s). 0 \<le> x"
  shows "(mode (opts s) \<noteq> Audio \<and> kfPosition s = xs @ k' # k # ys \<and> k \<le> p \<and> (\<forall>y \<in> set ys. p < y)
            \<longrightarrow> fst (getSafeClearOffsetOfBuffer s p) \<le> k')
       \<and> (mode (opts s) \<noteq> Audio \<and> kfPosition s = zs @ k # ys \<and> k \<le> p \<and> (\<forall>y \<in> set ys. p < y)
            \<longrightarrow> fst (getSafeClearOffsetOfBuffer s p) \<le> k
                \<and> (0 < k \<longrightarrow> fst (getSafeClearOffsetOfBuffer s p) < k))
       \<and> (mode (opts s) = Audio \<and> length (filter (\<lambda>x. x < p) (kfPosition s)) < 2
            \<longrightarrow> fst (getSafeClearOffsetOfBuffer s p) = p)"
proof (intro conjI impI)
  let ?r = "fst (getSafeClearOffsetOfBuffer s p)"
  {
    fix zs
    assume v: "mode (opts s) \<noteq> Audio \<and> kfPosition s = zs @ k # ys \<and> k \<le> p \<and> (\<forall>y \<in> set ys. p < y)"
    have L: "kfPosition s = zs @ k # ys" using v by simp
    have srt: "(\<forall>x \<in> set zs. x < k) \<and> (\<forall>y \<in> set ys. k < y)"
      using asc L by (auto simp: sorted_wrt_append)
    have k0: "0 \<le> k" using nonneg L by simp
    have "?r = 0 \<or> (?r \<in> set zs)"
    proof -
      from getSafe_result_cases[of s p] v
      consider "?r = 0" | a where "a \<in> set (kfPosition s)" "a < p" "?r \<in> set (kfPosition s)" "?r < a"
        by auto
      then show ?thesis
      proof cases
        case 1 then show ?thesis by simp
      next
        case 2
        have "a \<notin> set ys" using 2(2) v by auto
        then have "a \<le> k" using 2(1) L srt by auto
        then have "?r < k" using 2(4) by simp
        then have "?r \<notin> set ys" "?r \<noteq> k" using srt by auto
        then show ?thesis using 2(3) L by simp
      qed
    qed
    note this srt k0
  } note key = this
  {
    assume v: "mode (opts s) \<noteq> Audio \<and> kfPosition s = xs @ k' # k # ys \<and> k \<le> p \<and> (\<forall>y \<in> set ys. p < y)"
    then have v': "mode (opts s) \<noteq> Audio \<and> kfPosition s = (xs @ [k']) @ k # ys \<and> k \<le> p \<and> (\<forall>y \<in> set ys. p < y)"
      by simp
    have a: "\<forall>x \<in> set xs. x < k'" using asc v by (auto simp: sorted_wrt_append)
    have "0 \<le> k'" using nonneg v by simp
    then show "?r \<le> k'" using key(1)[OF v'] a by auto
  }
  {
    assume v: "mode (opts s) \<noteq> Audio \<and> kfPosition s = zs @ k # ys \<and> k \<le> p \<and> (\<forall>y \<in> set ys. p < y)"
    show "?r \<le> k" using key[OF v] by auto
    show "?r < k" if "0 < k" using key[OF v] that by auto
  }
  {
    assume au: "mode (opts s) = Audio \<and> length (filter (\<lambda>x. x < p) (kfPosition s)) < 2"
    from getSafe_result_cases[of s p] au
    consider "?r = p" | a where "a \<in> set (kfPosition s)" "a < p" "?r \<in> set (kfPosition s)" "?r < a"
      by auto
    then show "?r = p"
    proof cases
      case 1 then show ?thesis .
    next
      case 2
      then show ?thesis using two_in_filter[OF 2(3) 2(1) 2(4) 2(2)] au by simp
    qed
  }
qed


theorem safe_clear_offset_witness:
  "fst (getSafeClearOffsetOfBuffer ((new_jmuxer (demo_options Video))\<lparr>kfPosition := [1, 2, 3, 4]\<rparr>) (7 / 2)) = 2
   \<and> fst (getSafeClearOffsetOfBuffer ((new_jmuxer (demo_options Both))\<lparr>kfPosition := [1, 2, 3, 4]\<rparr>) 3) = 1
   \<and> fst (getSafeClearOffsetOfBuffer (new_jmuxer (demo_options Audio)) 12) = 12"
proof -
  have a: "sorted_wrt (<) (kfPosition ((new_jmuxer (demo_options Video))\<lparr>kfPosition := [1, 2, 3, 4]\<rparr>))"
    "\<forall>x \<in> set (kfPosition ((new_jmuxer (demo_options Video))\<lparr>kfPosition := [1, 2, 3, 4]\<rparr>)). 0 \<le> x"
    by simp_all
  have b: "sorted_wrt (<) (kfPosition (new_jmuxer (demo_options Audio)))"
    "\<forall>x \<in> set (kfPosition (new_jmuxer (demo_options Audio))). 0 \<le> x"
    by (simp_all add: new_jmuxer_ledger)
  show ?thesis
    using safe_clear_offset[OF a, of "[1]" 2 3 "[4]" "7 / 2" "[1, 2]"]
      safe_clear_offset[OF b, of "[]" 0 0 "[]" 12 "[]"]
    by (simp add: getSafeClearOffsetOfBuffer_def new_jmuxer_def demo_options_def Let_def)
qed

subsection \<open>Ledger ordering\<close>

lemma prune_keeps_ascending:
  "sorted_wrt (<) (kfPosition s) \<Longrightarrow>
   sorted_wrt (<) (kfPosition (snd (getSafeClearOffsetOfBuffer s p)))"
  by (auto simp: getSafe_kfPosition sorted_wrt_filter split: option.splits)

text \<open>
  C3. The code does not keep the ledger ascending. The entry pushed for a keyframe is
  \<open>kfCounter * fd / 1000\<close> with the \<open>fd\<close> of the chunk being processed, not the sum of
  the durations handed out so far. On a new instance, a keyframe chunk of duration 1000
  followed by a keyframe chunk of duration 250 leaves the ledger \<open>[1, 1/2]\<close>; durations
  100 then 10 do the same; and so does ordinary jitter: after 34 frames of 34 ms, a
  keyframe of 34 ms and then a keyframe of 33 ms are entered at 1.19 s and 1.188 s.
  Pruning is not at fault: it keeps an ascending ledger ascending.
\<close>

theorem ledger_not_ascending:
  "kfPosition (run demo_parsers (new_jmuxer (demo_options Both))
      [FeedOp (Some (video_chunk [0x65] (Some 1000))), FeedOp (Some (video_chunk [0x65] (Some 250)))])
     = [1, 1 / 2]
   \<and> \<not> sorted_wrt (<) (kfPosition (run demo_parsers (new_jmuxer (demo_options Both))
      [FeedOp (Some (video_chunk [0x65] (Some 1000))), FeedOp (Some (video_chunk [0x65] (Some 250)))]))
   \<and> \<not> sorted_wrt (<) (kfPosition (run demo_parsers (new_jmuxer (demo_options Both))
      [FeedOp (Some (video_chunk [0x65] (Some 100))), FeedOp (Some (video_chunk [0x65] (Some 10)))]))
   \<and> kfPosition (run demo_parsers (new_jmuxer (demo_options Both))
      [FeedOp (Some (video_chunk (replicate 34 0x41) (Some 1156))),
       FeedOp (Some (video_chunk [0x65] (Some 34))),
       FeedOp (Some (video_chunk [0x65] (Some 33)))])
     = [dbl (1190 / 1000), dbl (1188 / 1000)]
   \<and> \<not> sorted_wrt (<) (kfPosition (run demo_parsers (new_jmuxer (demo_options Both))
      [FeedOp (Some (video_chunk (replicate 34 0x41) (Some 1156))),
       FeedOp (Some (video_chunk [0x65] (Some 34))),
       FeedOp (Some (video_chunk [0x65] (Some 33)))]))"
  by code_simp

section \<open>Feeding and buffer errors\<close>

subsection \<open>Chunks that yield no unit\<close>

text \<open>
  C8, as the claim words it, fails. A call of \<open>feed\<close> with no data at all returns at the
  guard of line 92, before the error message: nothing is logged.
\<close>

theorem invalid_chunk_counterexample:
  "feed demo_parsers (new_jmuxer (demo_options Both)) None = (new_jmuxer (demo_options Both), [])
   \<and> \<not> (\<exists>msg. LogError msg \<in> set (snd (feed demo_parsers (new_jmuxer (demo_options Both)) None)))"
  by (simp add: feed_def)

text \<open>
  C8, amended. A call of \<open>feed\<close> with no data at all, or on an instance whose remux
  controller is gone, is ignored silently: no log entry, no remux, and the instance is
  unchanged. On a live instance, a chunk whose video and audio fields (if present) each
  yield no parsed unit is rejected with one logged error and no remux, the instance
  (\<open>kfCounter\<close> and \<open>kfPosition\<close> included) is unchanged, and a later call of \<open>feed\<close>
  behaves as if the rejected chunk had never been fed.
\<close>

theorem invalid_chunk_rejected:
  "feed P s None = (s, [])
   \<and> (\<not> remuxController s \<longrightarrow> feed P s data = (s, []))
   \<and> (remuxController s
        \<and> (\<forall>v. video c = Some v \<longrightarrow> extractNALu P v = [])
        \<and> (\<forall>a. audio c = Some a \<longrightarrow> extractAAC P a = [])
      \<longrightarrow> feed P s (Some c) = (s, [LogError input_error_message])
          \<and> feed P (fst (feed P s (Some c))) later = feed P s later)"
proof (intro conjI impI)
  show "feed P s None = (s, [])" by (simp add: feed_def)
  show "feed P s data = (s, [])" if "\<not> remuxController s"
    using that by (simp add: feed_def split: option.splits)
  assume a: "remuxController s
        \<and> (\<forall>v. video c = Some v \<longrightarrow> extractNALu P v = [])
        \<and> (\<forall>a. audio c = Some a \<longrightarrow> extractAAC P a = [])"
  then show r: "feed P s (Some c) = (s, [LogError input_error_message])"
    by (auto simp: feed_def Let_def split: option.splits)
  show "feed P (fst (feed P s (Some c))) later = feed P s later"
    by (simp add: r)
qed

theorem invalid_chunk_rejected_witness:
  "remuxController (new_jmuxer (demo_options Both))
   \<and> feed demo_parsers (new_jmuxer (demo_options Both))
        (Some \<lparr>video = Some [], audio = Some [], cduration = Some 40\<rparr>)
      = (new_jmuxer (demo_options Both), [LogError input_error_message])
   \<and> feed demo_parsers (new_jmuxer (demo_options Both))
        (Some \<lparr>video = None, audio = None, cduration = None\<rparr>)
      = (new_jmuxer (demo_options Both), [LogError input_error_message])"
proof -
  have r: "remuxController (new_jmuxer (demo_options Both))"
    by (simp add: new_jmuxer_def Let_def)
  show ?thesis
    using r
      invalid_chunk_rejected[of demo_parsers "new_jmuxer (demo_options Both)" None
            "\<lparr>video = Some [], audio = Some [], cduration = Some 40\<rparr>" None]
      invalid_chunk_rejected[of demo_parsers "new_jmuxer (demo_options Both)" None
            "\<lparr>video = None, audio = None, cduration = None\<rparr>" None]
    by (simp add: demo_extract)
qed

subsection \<open>Quota errors\<close>

text \<open>
  C9. When a buffer controller of the instance reports an error named QuotaExceeded for
  its track, onBufferError does exactly one thing: it calls \<open>initCleanup\<close> on that
  track's buffer controller with the current playback position as the offset. It appends
  nothing, removes no source buffer, does not end the stream, and leaves the instance
  unchanged.
\<close>

theorem quota_recovery:
  assumes "ename e = ''QuotaExceeded''" and "bufferControllers s = Some bc" and "etype e \<in> bc"
  shows "onBufferError s e = Inr (s, [InitCleanup (etype e) (currentTime s)])"
  using assms by (simp add: onBufferError_def)

theorem quota_recovery_witness:
  "onBufferError
     ((new_jmuxer (demo_options Both))
        \<lparr>bufferControllers := Some {VideoTrack, AudioTrack},
         sourceBuffers := {VideoTrack, AudioTrack},
         mediaSource := Some [VideoTrack, AudioTrack],
         currentTime := 12\<rparr>)
     \<lparr>ename = ''QuotaExceeded'', etype = VideoTrack\<rparr>
   = Inr ((new_jmuxer (demo_options Both))
        \<lparr>bufferControllers := Some {VideoTrack, AudioTrack},
         sourceBuffers := {VideoTrack, AudioTrack},
         mediaSource := Some [VideoTrack, AudioTrack],
         currentTime := 12\<rparr>, [InitCleanup VideoTrack 12])"
  using quota_recovery[of "\<lparr>ename = ''QuotaExceeded'', etype = VideoTrack\<rparr>"
      "(new_jmuxer (demo_options Both))
        \<lparr>bufferControllers := Some {VideoTrack, AudioTrack},
         sourceBuffers := {VideoTrack, AudioTrack},
         mediaSource := Some [VideoTrack, AudioTrack],
         currentTime := 12\<rparr>" "{VideoTrack, AudioTrack}"]
  by simp

text \<open>For comparison, the fatal path on the last source buffer removes it and ends the stream.\<close>

lemma fatal_path_example:
  "onBufferError
     ((new_jmuxer (demo_options Video))
        \<lparr>bufferControllers := Some {VideoTrack},
         sourceBuffers := {VideoTrack},
         mediaSource := Some [VideoTrack]\<rparr>)
     \<lparr>ename = ''InvalidStateError'', etype = VideoTrack\<rparr>
   = Inr ((new_jmuxer (demo_options Video))
        \<lparr>bufferControllers := Some {VideoTrack},
         sourceBuffers := {VideoTrack},
         mediaSource := Some []\<rparr>, [RemoveSourceBuffer VideoTrack, EndOfStream])"
  by (simp add: onBufferError_def new_jmuxer_def Let_def)


end
